theory Spec2Isabelle
  imports Main "HOL-Library.AList"
begin

section \<open>The real-time market data server (realtime/src/server.js)\<close>

text \<open>
  The server keeps two module-level maps, \<open>subscriptions\<close> (subscription key to the Set of
  socket ids) and \<open>pollingTimers\<close> (subscription key to the handle of its interval timer),
  and reacts to socket events (subscribe, unsubscribe, disconnect) and to its own interval
  timers. The callback of a timer is an async function with two suspension points: the
  upstream fetch of the handler and the cache write. The model is a state record and one
  function per handler of the source; what the outside world answers (the upstream reply,
  the reply of the cache, the clock) is an argument of the event that delivers it.

  A JavaScript \<open>Map\<close> is an association list in insertion order (\<open>AList.update\<close>
  replaces in place or appends, as \<open>Map.set\<close> does); a \<open>Set\<close> is a list in insertion
  order that \<open>Set_add\<close> keeps free of duplicates. Socket ids, asset types and symbols are
  strings.
\<close>

subsection \<open>Values\<close>

text \<open>
  Payloads are what \<open>response.json()\<close> yields. Numbers are integers here: the server only
  tests a number for being zero. \<open>JStrObj\<close> is a String wrapper object, which no JSON text
  denotes but \<open>Object(symbol)\<close> returns.
\<close>

datatype json =
    JNull
  | JBool bool
  | JNum int
  | JStr string
  | JArr "json list"
  | JObj "(string \<times> json) list"
  | JStrObj string

text \<open>The truth value of a payload in a condition (\<open>if (data)\<close>).\<close>

fun truthy :: "json \<Rightarrow> bool" where
  "truthy JNull = False"
| "truthy (JBool b) = b"
| "truthy (JNum n) = (n \<noteq> 0)"
| "truthy (JStr s) = (s \<noteq> [])"
| "truthy (JArr _) = True"
| "truthy (JObj _) = True"
| "truthy (JStrObj _) = True"

text \<open>
  What a \<open>catch\<close> receives: \<open>Error v\<close> is \<open>new Error(v)\<close> thrown by a handler,
  \<open>TypeError\<close> is raised by the runtime (a property read on \<open>null\<close>, a call of a
  non-function, a built-in called without receiver), \<open>Rejected m\<close> is the rejection of a
  promise of a library (\<open>fetch\<close>, \<open>response.json\<close>, the cache client).
\<close>

datatype js_error = Error json | TypeError | Rejected string

text \<open>The outcome of \<open>await fetch(url)\<close> followed by \<open>await response.json()\<close>.\<close>

datatype upstream = Fails string | Json json

text \<open>
  A property read \<open>table[name]\<close> on an object literal finds the literal's own properties
  and, for every other name, the properties inherited from \<open>Object.prototype\<close>.
\<close>

datatype 'a property = Own 'a | Inherited string | Absent

definition Object_prototype :: "string list" where
  "Object_prototype =
     [''constructor'', ''__defineGetter__'', ''__defineSetter__'', ''hasOwnProperty'',
      ''__lookupGetter__'', ''__lookupSetter__'', ''isPrototypeOf'',
      ''propertyIsEnumerable'', ''toString'', ''valueOf'', ''__proto__'',
      ''toLocaleString'']"

definition lookup :: "(string \<times> 'a) list \<Rightarrow> string \<Rightarrow> 'a property" where
  "lookup table name =
     (case map_of table name of
        Some v \<Rightarrow> Own v
      | None \<Rightarrow> if name \<in> set Object_prototype then Inherited name else Absent)"

subsection \<open>Market data handlers\<close>

datatype handler = STOCK | CRYPTO | FOREX

definition marketDataHandlers :: "string \<Rightarrow> handler property" where
  "marketDataHandlers =
     lookup [(''STOCK'', STOCK), (''CRYPTO'', CRYPTO), (''FOREX'', FOREX)]"

text \<open>
  \<open>data['Error Message']\<close>: a \<open>TypeError\<close> on \<open>null\<close>, the field of an object,
  \<open>undefined\<close> (\<open>None\<close>) on every other value.
\<close>

fun Error_Message :: "json \<Rightarrow> js_error + json option" where
  "Error_Message JNull = Inl TypeError"
| "Error_Message (JObj fields) = Inr (map_of fields ''Error Message'')"
| "Error_Message _ = Inr None"

text \<open>\<open>if (data['Error Message']) throw new Error(data['Error Message']); return data\<close>\<close>

definition checked :: "json \<Rightarrow> js_error + json" where
  "checked data =
     (case Error_Message data of
        Inl e \<Rightarrow> Inl e
      | Inr None \<Rightarrow> Inr data
      | Inr (Some m) \<Rightarrow> if truthy m then Inl (Error m) else Inr data)"

text \<open>\<open>!apiKey\<close> for \<open>process.env.ALPHA_VANTAGE_KEY\<close>: unset or the empty string.\<close>

definition no_key :: "string option \<Rightarrow> bool" where
  "no_key apiKey = (apiKey = None \<or> apiKey = Some [])"

text \<open>
  A handler up to its first \<open>await\<close>: \<open>Some r\<close> when it settles without a request
  (\<open>return null\<close> of STOCK and FOREX without API key), \<open>None\<close> when it waits for the
  upstream reply. The request URL is not part of the model.
\<close>

fun handler_start :: "handler \<Rightarrow> string option \<Rightarrow> (js_error + json) option" where
  "handler_start STOCK apiKey = (if no_key apiKey then Some (Inr JNull) else None)"
| "handler_start CRYPTO apiKey = None"
| "handler_start FOREX apiKey = (if no_key apiKey then Some (Inr JNull) else None)"

text \<open>A handler from the upstream reply on.\<close>

fun handler_resume :: "handler \<Rightarrow> upstream \<Rightarrow> js_error + json" where
  "handler_resume h (Fails m) = Inl (Rejected m)"
| "handler_resume STOCK (Json data) = checked data"
| "handler_resume CRYPTO (Json data) = Inr data"
| "handler_resume FOREX (Json data) = checked data"

text \<open>
  \<open>handler(symbol)\<close> when \<open>handler\<close> is an inherited property, called without receiver:
  \<open>Object(symbol)\<close> wraps the string, \<open>Object.prototype.toString\<close> names the missing
  receiver, \<open>isPrototypeOf\<close> answers \<open>false\<close> for a string argument; \<open>__proto__\<close> is
  no function and the other built-ins need a receiver, so the call throws.
\<close>

definition inherited_call :: "string \<Rightarrow> string \<Rightarrow> js_error + json" where
  "inherited_call name symbol =
     (if name = ''constructor'' then Inr (JStrObj symbol)
      else if name = ''toString'' then Inr (JStr ''[object Undefined]'')
      else if name = ''isPrototypeOf'' then Inr (JBool False)
      else Inl TypeError)"

subsection \<open>Polling intervals\<close>

definition pollingIntervals :: "string \<Rightarrow> nat property" where
  "pollingIntervals =
     lookup [(''STOCK'', 5000), (''CRYPTO'', 3000), (''FOREX'', 10000), (''BOND'', 60000),
             (''COMMODITY'', 30000), (''INDEX'', 10000), (''ETF'', 5000), (''ATF'', 300000),
             (''REAL_ESTATE'', 3600000)]"

text \<open>
  The delay handed to \<open>setInterval\<close>: \<open>pollingIntervals[assetType] || 10000\<close>. An
  inherited property is truthy and no number; the runtime then uses a delay of 1 ms.
\<close>

datatype delay = Millis nat | NotANumber

definition interval_of :: "string \<Rightarrow> delay" where
  "interval_of assetType =
     (case pollingIntervals assetType of
        Own n \<Rightarrow> if n = 0 then Millis 10000 else Millis n
      | Inherited _ \<Rightarrow> NotANumber
      | Absent \<Rightarrow> Millis 10000)"

fun period :: "delay \<Rightarrow> nat" where
  "period (Millis n) = n"
| "period NotANumber = 1"

subsection \<open>State\<close>

datatype message =
    Subscribed string string
  | Unsubscribed string string
  | Market_update string string json string

datatype log =
    Client_connected string
  | Subscribing string
  | Unsubscribing string
  | Client_disconnected string
  | Started_polling string delay
  | Stopped_polling string
  | No_handler string
  | Error_fetching string js_error

text \<open>An interval timer remembers the \<open>assetType\<close> and \<open>symbol\<close> its callback closes over.\<close>

record timer =
  timer_assetType :: string
  timer_symbol :: string
  timer_interval :: delay

text \<open>A suspended run of the timer callback: at \<open>await handler(symbol)\<close> or at
  \<open>await redisClient.setEx(...)\<close>.\<close>

datatype pending =
    Await_fetch handler string string
  | Await_cache string string json

record server =
  subscriptions :: "(string \<times> string list) list"
  pollingTimers :: "(string \<times> nat) list"
  timers :: "(nat \<times> timer) list"
  next_timer :: nat
  inflight :: "pending list"
  redis :: "(string \<times> nat \<times> json) list"
  sent :: "(string \<times> message) list"
  console :: "log list"
  clients :: "string list"
  ALPHA_VANTAGE_KEY :: "string option"

text \<open>
  \<open>timers\<close> are the intervals the event loop still runs (created by \<open>setInterval\<close>, not
  yet cleared), each under a fresh handle; \<open>redis\<close> maps a cache key to its time to live
  in seconds and its value (the payload that \<open>JSON.stringify\<close> serialises); \<open>sent\<close> lists
  the emitted messages with the socket id they are addressed to; \<open>clients\<close> are the
  connected sockets, whose number is \<open>io.engine.clientsCount\<close>.
\<close>

definition init :: "string option \<Rightarrow> server" where
  "init apiKey =
     \<lparr>subscriptions = [], pollingTimers = [], timers = [], next_timer = 0, inflight = [],
      redis = [], sent = [], console = [], clients = [], ALPHA_VANTAGE_KEY = apiKey\<rparr>"

definition Set_add :: "'a \<Rightarrow> 'a list \<Rightarrow> 'a list" where
  "Set_add x xs = (if x \<in> set xs then xs else xs @ [x])"

definition subscriptionKey :: "string \<Rightarrow> string \<Rightarrow> string" where
  "subscriptionKey assetType symbol = assetType @ '':'' @ symbol"

definition say :: "log \<Rightarrow> server \<Rightarrow> server" where
  "say l s = s\<lparr>console := console s @ [l]\<rparr>"

definition emit :: "string \<Rightarrow> message \<Rightarrow> server \<Rightarrow> server" where
  "emit socket m s = s\<lparr>sent := sent s @ [(socket, m)]\<rparr>"

subsection \<open>Polling management\<close>

definition startPolling :: "string \<Rightarrow> string \<Rightarrow> server \<Rightarrow> server" where
  "startPolling assetType symbol s =
     (let key = subscriptionKey assetType symbol;
          interval = interval_of assetType;
          timer = next_timer s
      in say (Started_polling key interval)
           (s\<lparr>timers := timers s @
                 [(timer, \<lparr>timer_assetType = assetType, timer_symbol = symbol,
                           timer_interval = interval\<rparr>)],
              next_timer := Suc timer,
              pollingTimers := AList.update key timer (pollingTimers s)\<rparr>))"

definition stopPolling :: "string \<Rightarrow> server \<Rightarrow> server" where
  "stopPolling key s =
     (case map_of (pollingTimers s) key of
        None \<Rightarrow> s
      | Some timer \<Rightarrow>
          say (Stopped_polling key)
            (s\<lparr>timers := AList.delete timer (timers s),
               pollingTimers := AList.delete key (pollingTimers s)\<rparr>))"

subsection \<open>Socket handlers\<close>

text \<open>
  \<open>subscribe\<close>: the entry of the key is created when missing, the socket id is added to
  its Set, and polling starts when the Set then has size 1.
\<close>

definition subscribe :: "string \<Rightarrow> string \<Rightarrow> string \<Rightarrow> server \<Rightarrow> server" where
  "subscribe socket assetType symbol s =
     (let key = subscriptionKey assetType symbol;
          s1 = say (Subscribing key) s;
          subscribers =
            Set_add socket (case map_of (subscriptions s1) key of None \<Rightarrow> [] | Some xs \<Rightarrow> xs);
          s2 = s1\<lparr>subscriptions := AList.update key subscribers (subscriptions s1)\<rparr>;
          s3 = (if length subscribers = 1 then startPolling assetType symbol s2 else s2)
      in emit socket (Subscribed assetType symbol) s3)"

text \<open>
  The body shared by \<open>unsubscribe\<close> and by each round of the loop of \<open>disconnect\<close>:
  delete the socket id from the Set of the key; when the Set is empty, stop polling and
  delete the entry.
\<close>

definition remove_subscriber :: "string \<Rightarrow> string \<Rightarrow> server \<Rightarrow> server" where
  "remove_subscriber socket key s =
     (case map_of (subscriptions s) key of
        None \<Rightarrow> s
      | Some xs \<Rightarrow>
          (let subscribers = removeAll socket xs;
               s1 = s\<lparr>subscriptions := AList.update key subscribers (subscriptions s)\<rparr>
           in if length subscribers = 0
              then (let s2 = stopPolling key s1
                    in s2\<lparr>subscriptions := AList.delete key (subscriptions s2)\<rparr>)
              else s1))"

definition unsubscribe :: "string \<Rightarrow> string \<Rightarrow> string \<Rightarrow> server \<Rightarrow> server" where
  "unsubscribe socket assetType symbol s =
     (let key = subscriptionKey assetType symbol;
          s1 = say (Unsubscribing key) s
      in emit socket (Unsubscribed assetType symbol) (remove_subscriber socket key s1))"

text \<open>
  \<open>disconnect\<close> visits every entry of \<open>subscriptions\<close> in order. Deleting the entry being
  visited leaves the later entries in place, so the loop is a fold over the keys present
  when it starts.
\<close>

definition disconnect :: "string \<Rightarrow> server \<Rightarrow> server" where
  "disconnect socket s =
     (let s1 = say (Client_disconnected socket) s
      in fold (remove_subscriber socket) (map fst (subscriptions s1)) s1)"

subsection \<open>The timer callback\<close>

text \<open>
  The emit loop, reached after the cache write: the Set is read from \<open>subscriptions\<close> at
  this moment, and every member is sent one \<open>market_update\<close>, in the order of the Set. Each
  round of the loop reads the clock for its timestamp; \<open>clock n\<close> is the time read in
  round \<open>n\<close>.
\<close>

definition market_updates ::
  "string \<Rightarrow> string \<Rightarrow> json \<Rightarrow> (nat \<Rightarrow> string) \<Rightarrow> string list \<Rightarrow> (string \<times> message) list"
  where
  "market_updates assetType symbol data clock subscribers =
     map (\<lambda>(n, socketId). (socketId, Market_update assetType symbol data (clock n)))
       (enumerate 0 subscribers)"

definition publish ::
  "string \<Rightarrow> string \<Rightarrow> json \<Rightarrow> (nat \<Rightarrow> string) \<Rightarrow> server \<Rightarrow> server" where
  "publish assetType symbol data clock s =
     (case map_of (subscriptions s) (subscriptionKey assetType symbol) of
        None \<Rightarrow> s
      | Some subscribers \<Rightarrow>
          s\<lparr>sent := sent s @ market_updates assetType symbol data clock subscribers\<rparr>)"

text \<open>
  The callback once the handler has settled: an exception is logged by the \<open>catch\<close>;
  truthy data goes to the cache, and the callback waits for the reply of the cache.
\<close>

definition handled :: "string \<Rightarrow> string \<Rightarrow> js_error + json \<Rightarrow> server \<Rightarrow> server" where
  "handled assetType symbol r s =
     (case r of
        Inl e \<Rightarrow> say (Error_fetching (subscriptionKey assetType symbol) e) s
      | Inr data \<Rightarrow>
          if truthy data then s\<lparr>inflight := inflight s @ [Await_cache assetType symbol data]\<rparr>
          else s)"

text \<open>The callback from its start to the first suspension.\<close>

definition tick :: "string \<Rightarrow> string \<Rightarrow> server \<Rightarrow> server" where
  "tick assetType symbol s =
     (case marketDataHandlers assetType of
        Absent \<Rightarrow> say (No_handler assetType) s
      | Inherited name \<Rightarrow>
          if name = ''__proto__''
          then say (Error_fetching (subscriptionKey assetType symbol) TypeError) s
          else handled assetType symbol (inherited_call name symbol) s
      | Own handler \<Rightarrow>
          (case handler_start handler (ALPHA_VANTAGE_KEY s) of
             Some r \<Rightarrow> handled assetType symbol r s
           | None \<Rightarrow> s\<lparr>inflight := inflight s @ [Await_fetch handler assetType symbol]\<rparr>))"

text \<open>The callback after the reply of the cache to \<open>setEx(key, 60, value)\<close>.\<close>

definition cached ::
  "string \<Rightarrow> string \<Rightarrow> json \<Rightarrow> string option \<Rightarrow> (nat \<Rightarrow> string) \<Rightarrow> server \<Rightarrow> server"
  where
  "cached assetType symbol data failure clock s =
     (let key = subscriptionKey assetType symbol
      in case failure of
           Some m \<Rightarrow> say (Error_fetching key (Rejected m)) s
         | None \<Rightarrow>
             publish assetType symbol data clock
               (s\<lparr>redis := AList.update (''market_data:'' @ key) (60, data) (redis s)\<rparr>))"

subsection \<open>Health check\<close>

definition health :: "string \<Rightarrow> server \<Rightarrow> json" where
  "health now s =
     JObj [(''status'', JStr ''healthy''), (''timestamp'', JStr now),
           (''connections'', JNum (int (length (clients s))))]"

subsection \<open>Events\<close>

text \<open>
  \<open>Settle_fetch i u\<close> and \<open>Settle_cache i failure clock\<close> resume the \<open>i\<close>-th suspended
  callback with the reply of the upstream provider or of the cache (\<open>None\<close>: written); the
  latter comes with the clock its emit loop will read.
  Socket events arrive only from connected sockets, a timer fires only while it is not
  cleared.
\<close>

datatype event =
    Connection string
  | Subscribe string string string
  | Unsubscribe string string string
  | Disconnect string
  | Fire nat
  | Settle_fetch nat upstream
  | Settle_cache nat "string option" "nat \<Rightarrow> string"

definition resume :: "nat \<Rightarrow> server \<Rightarrow> server" where
  "resume i s = s\<lparr>inflight := take i (inflight s) @ drop (Suc i) (inflight s)\<rparr>"

fun step :: "event \<Rightarrow> server \<Rightarrow> server" where
  "step (Connection socket) s =
     (if socket \<in> set (clients s) then s
      else say (Client_connected socket) (s\<lparr>clients := clients s @ [socket]\<rparr>))"
| "step (Subscribe socket a sy) s =
     (if socket \<in> set (clients s) then subscribe socket a sy s else s)"
| "step (Unsubscribe socket a sy) s =
     (if socket \<in> set (clients s) then unsubscribe socket a sy s else s)"
| "step (Disconnect socket) s =
     (if socket \<in> set (clients s)
      then disconnect socket (s\<lparr>clients := removeAll socket (clients s)\<rparr>) else s)"
| "step (Fire t) s =
     (case map_of (timers s) t of
        None \<Rightarrow> s
      | Some tm \<Rightarrow> tick (timer_assetType tm) (timer_symbol tm) s)"
| "step (Settle_fetch i u) s =
     (if i < length (inflight s)
      then (case inflight s ! i of
              Await_fetch h a sy \<Rightarrow> handled a sy (handler_resume h u) (resume i s)
            | Await_cache _ _ _ \<Rightarrow> s)
      else s)"
| "step (Settle_cache i failure clock) s =
     (if i < length (inflight s)
      then (case inflight s ! i of
              Await_cache a sy data \<Rightarrow> cached a sy data failure clock (resume i s)
            | Await_fetch _ _ _ \<Rightarrow> s)
      else s)"

text \<open>A run of the server: the events in their order of arrival.\<close>

definition run :: "event list \<Rightarrow> server \<Rightarrow> server" where
  "run es s = fold step es s"


subsection \<open>Views of the state\<close>

text \<open>The Set registered for a key, empty when the key has no entry.\<close>

definition subscribers_of :: "server \<Rightarrow> string \<Rightarrow> string list" where
  "subscribers_of s key = (case map_of (subscriptions s) key of None \<Rightarrow> [] | Some xs \<Rightarrow> xs)"

text \<open>The messages addressed to a socket among the messages sent.\<close>

definition received :: "string \<Rightarrow> (string \<times> message) list \<Rightarrow> message list" where
  "received socket msgs = map snd (filter (\<lambda>(socketId, m). socketId = socket) msgs)"

text \<open>
  The keys a socket is subscribed to. The server stores no such list; it is found by a
  scan of \<open>subscriptions\<close>, the way \<open>disconnect\<close> visits every entry.
\<close>

definition keys_of :: "server \<Rightarrow> string \<Rightarrow> string list" where
  "keys_of s socket =
     map fst (filter (\<lambda>(key, subscribers). socket \<in> set subscribers) (subscriptions s))"

text \<open>The handles of the running intervals whose callback polls a given key.\<close>

definition live_timers :: "server \<Rightarrow> string \<Rightarrow> nat list" where
  "live_timers s key =
     map fst (filter (\<lambda>(t, tm). subscriptionKey (timer_assetType tm) (timer_symbol tm) = key)
                (timers s))"

text \<open>The names of the asset classes, the keys of \<open>pollingIntervals\<close>.\<close>

definition asset_classes :: "string list" where
  "asset_classes =
     [''STOCK'', ''CRYPTO'', ''FOREX'', ''BOND'', ''COMMODITY'', ''INDEX'', ''ETF'', ''ATF'',
      ''REAL_ESTATE'']"

text \<open>
  What the server holds besides \<open>subscriptions\<close>; the messages already sent have left
  the server.
\<close>

definition besides_subscriptions :: "server \<Rightarrow> server" where
  "besides_subscriptions s = s\<lparr>subscriptions := [], sent := []\<rparr>"

text \<open>
  The shape of the registry: keys occur once, every registered Set is non-empty, without
  duplicates and made of connected sockets, and the keys with an entry in
  \<open>pollingTimers\<close> are the keys with an entry in \<open>subscriptions\<close>.
\<close>

definition registry_ok :: "server \<Rightarrow> bool" where
  "registry_ok s \<longleftrightarrow>
     distinct (map fst (subscriptions s)) \<and>
     (\<forall>key xs. map_of (subscriptions s) key = Some xs \<longrightarrow>
        xs \<noteq> [] \<and> distinct xs \<and> set xs \<subseteq> set (clients s)) \<and>
     dom (map_of (pollingTimers s)) = dom (map_of (subscriptions s))"

text \<open>
  The payloads a tick of a class can bring to the cache: truthy values returned by the
  property found for the class in \<open>marketDataHandlers\<close>, which is an own handler that got
  to its request or one of the two inherited functions that return something truthy.
\<close>

definition supplies :: "string option \<Rightarrow> string \<Rightarrow> json \<Rightarrow> bool" where
  "supplies apiKey a data \<longleftrightarrow>
     truthy data \<and>
     (case marketDataHandlers a of
        Absent \<Rightarrow> False
      | Inherited name \<Rightarrow> name = ''constructor'' \<or> name = ''toString''
      | Own h \<Rightarrow> handler_start h apiKey = None \<and> handler_resume h (Json data) = Inr data)"

text \<open>What is in flight, was sent and is cached comes from such payloads only.\<close>

definition feed_ok :: "server \<Rightarrow> bool" where
  "feed_ok s \<longleftrightarrow>
     (\<forall>h a sy. Await_fetch h a sy \<in> set (inflight s) \<longrightarrow>
        marketDataHandlers a = Own h \<and> handler_start h (ALPHA_VANTAGE_KEY s) = None) \<and>
     (\<forall>a sy data. Await_cache a sy data \<in> set (inflight s) \<longrightarrow>
        supplies (ALPHA_VANTAGE_KEY s) a data) \<and>
     (\<forall>c a sy data now. (c, Market_update a sy data now) \<in> set (sent s) \<longrightarrow>
        supplies (ALPHA_VANTAGE_KEY s) a data) \<and>
     (\<forall>key ttl data. (key, ttl, data) \<in> set (redis s) \<longrightarrow>
        ttl = 60 \<and>
        (\<exists>a sy. key = ''market_data:'' @ subscriptionKey a sy \<and>
                supplies (ALPHA_VANTAGE_KEY s) a data))"

section \<open>Properties\<close>

lemmas server_defs =
  market_updates_def run_def init_def subscribe_def unsubscribe_def remove_subscriber_def disconnect_def
  startPolling_def stopPolling_def say_def emit_def Set_add_def subscriptionKey_def
  interval_of_def pollingIntervals_def marketDataHandlers_def lookup_def Object_prototype_def
  inherited_call_def tick_def handled_def cached_def publish_def resume_def checked_def
  no_key_def health_def Let_def

subsection \<open>What each function changes\<close>

lemma say_simps [simp]:
  "subscriptions (say l s) = subscriptions s" "pollingTimers (say l s) = pollingTimers s"
  "timers (say l s) = timers s" "next_timer (say l s) = next_timer s"
  "inflight (say l s) = inflight s" "redis (say l s) = redis s" "sent (say l s) = sent s"
  "console (say l s) = console s @ [l]" "clients (say l s) = clients s"
  "ALPHA_VANTAGE_KEY (say l s) = ALPHA_VANTAGE_KEY s"
  by (simp_all add: say_def)

lemma emit_simps [simp]:
  "subscriptions (emit c m s) = subscriptions s" "pollingTimers (emit c m s) = pollingTimers s"
  "timers (emit c m s) = timers s" "next_timer (emit c m s) = next_timer s"
  "inflight (emit c m s) = inflight s" "redis (emit c m s) = redis s"
  "sent (emit c m s) = sent s @ [(c, m)]"
  "console (emit c m s) = console s" "clients (emit c m s) = clients s"
  "ALPHA_VANTAGE_KEY (emit c m s) = ALPHA_VANTAGE_KEY s"
  by (simp_all add: emit_def)

lemma startPolling_simps [simp]:
  "subscriptions (startPolling a sy s) = subscriptions s"
  "pollingTimers (startPolling a sy s) = AList.update (subscriptionKey a sy) (next_timer s) (pollingTimers s)"
  "timers (startPolling a sy s) = timers s @ [(next_timer s, \<lparr>timer_assetType = a, timer_symbol = sy, timer_interval = interval_of a\<rparr>)]"
  "next_timer (startPolling a sy s) = Suc (next_timer s)"
  "inflight (startPolling a sy s) = inflight s" "redis (startPolling a sy s) = redis s"
  "sent (startPolling a sy s) = sent s"
  "console (startPolling a sy s) = console s @ [Started_polling (subscriptionKey a sy) (interval_of a)]"
  "clients (startPolling a sy s) = clients s"
  "ALPHA_VANTAGE_KEY (startPolling a sy s) = ALPHA_VANTAGE_KEY s"
  by (simp_all add: startPolling_def Let_def)

lemma stopPolling_simps [simp]:
  "subscriptions (stopPolling k s) = subscriptions s"
  "pollingTimers (stopPolling k s) = AList.delete k (pollingTimers s)"
  "next_timer (stopPolling k s) = next_timer s"
  "inflight (stopPolling k s) = inflight s" "redis (stopPolling k s) = redis s"
  "sent (stopPolling k s) = sent s"
  "clients (stopPolling k s) = clients s"
  "ALPHA_VANTAGE_KEY (stopPolling k s) = ALPHA_VANTAGE_KEY s"
  by (auto simp: stopPolling_def split: option.splits simp: map_of_eq_None_iff)

subsection \<open>The registry keeps its shape\<close>

lemma subs_remove_subscriber:
  "map_of (subscriptions (remove_subscriber c k s)) =
     (map_of (subscriptions s))(k := (case map_of (subscriptions s) k of None \<Rightarrow> None
        | Some xs \<Rightarrow> if removeAll c xs = [] then None else Some (removeAll c xs)))"
  by (auto simp: remove_subscriber_def Let_def update_conv' delete_conv' fun_eq_iff split: option.splits)

lemma timers_remove_subscriber:
  "map_of (pollingTimers (remove_subscriber c k s)) =
     (if \<exists>xs. map_of (subscriptions s) k = Some xs \<and> removeAll c xs = []
      then (map_of (pollingTimers s))(k := None) else map_of (pollingTimers s))"
  by (auto simp: remove_subscriber_def Let_def delete_conv' split: option.splits)

lemma keys_remove_subscriber:
  "distinct (map fst (subscriptions s)) \<Longrightarrow> distinct (map fst (subscriptions (remove_subscriber c k s)))"
  by (auto simp: remove_subscriber_def Let_def distinct_update distinct_delete split: option.splits)

lemma rest_remove_subscriber [simp]:
  "clients (remove_subscriber c k s) = clients s"
  "sent (remove_subscriber c k s) = sent s"
  "redis (remove_subscriber c k s) = redis s"
  "inflight (remove_subscriber c k s) = inflight s"
  "next_timer (remove_subscriber c k s) = next_timer s"
  "ALPHA_VANTAGE_KEY (remove_subscriber c k s) = ALPHA_VANTAGE_KEY s"
  by (simp_all add: remove_subscriber_def Let_def split: option.splits)


lemma registry_ok_remove_subscriber:
  assumes ok: "registry_ok s"
  shows "registry_ok (remove_subscriber c k s)"
proof -
  let ?m = "map_of (subscriptions s)"
  let ?s' = "remove_subscriber c k s"
  have keys: "distinct (map fst (subscriptions ?s'))"
    using ok by (simp add: registry_ok_def keys_remove_subscriber)
  have sets: "xs \<noteq> [] \<and> distinct xs \<and> set xs \<subseteq> set (clients ?s')"
    if "map_of (subscriptions ?s') key = Some xs" for key xs
  proof (cases "key = k")
    case True
    with that obtain ys where ys: "?m k = Some ys" and xs: "xs = removeAll c ys" and ne: "removeAll c ys \<noteq> []"
      by (auto simp: subs_remove_subscriber split: option.splits if_splits)
    from ok ys have "distinct ys" "set ys \<subseteq> set (clients s)"
      by (auto simp: registry_ok_def)
    then show ?thesis using xs ne by (auto simp: distinct_removeAll)
  next
    case False
    with that have "?m key = Some xs" by (simp add: subs_remove_subscriber)
    with ok show ?thesis by (simp add: registry_ok_def)
  qed
  have d: "dom (map_of (pollingTimers s)) = dom ?m"
    using ok by (simp add: registry_ok_def)
  have doms: "dom (map_of (pollingTimers ?s')) = dom (map_of (subscriptions ?s'))"
  proof (cases "\<exists>xs. ?m k = Some xs \<and> removeAll c xs = []")
    case True
    then show ?thesis
      using d by (auto simp: subs_remove_subscriber timers_remove_subscriber)
  next
    case False
    then have "dom (map_of (subscriptions ?s')) = dom ?m"
      by (auto simp: subs_remove_subscriber split: option.splits if_splits)
    moreover have "map_of (pollingTimers ?s') = map_of (pollingTimers s)"
      using False by (simp only: timers_remove_subscriber if_False)
    ultimately show ?thesis using d by simp
  qed
  show ?thesis
    unfolding registry_ok_def using keys sets doms by blast
qed

lemma registry_ok_fold_remove:
  "registry_ok s \<Longrightarrow> registry_ok (fold (remove_subscriber c) ks s)"
  by (induction ks arbitrary: s) (simp_all add: registry_ok_remove_subscriber)

lemma subs_fold_remove:
  "map_of (subscriptions (fold (remove_subscriber c) ks s)) key =
     (if key \<in> set ks
      then (case map_of (subscriptions s) key of None \<Rightarrow> None
            | Some xs \<Rightarrow> if removeAll c xs = [] then None else Some (removeAll c xs))
      else map_of (subscriptions s) key)"
proof (induction ks arbitrary: s)
  case Nil
  show ?case by simp
next
  case (Cons k ks)
  show ?case
    by (simp add: Cons.IH subs_remove_subscriber split: option.splits)
qed

lemma clients_fold_remove [simp]:
  "clients (fold (remove_subscriber c) ks s) = clients s"
  by (induction ks arbitrary: s) simp_all





lemma remove_subscriber_clients_update:
  "remove_subscriber c k (s\<lparr>clients := cl\<rparr>) = (remove_subscriber c k s)\<lparr>clients := cl\<rparr>"
  by (simp add: remove_subscriber_def stopPolling_def say_def Let_def split: option.splits)

lemma fold_remove_clients_update:
  "fold (remove_subscriber c) ks (s\<lparr>clients := cl\<rparr>) = (fold (remove_subscriber c) ks s)\<lparr>clients := cl\<rparr>"
  by (induction ks arbitrary: s) (simp_all add: remove_subscriber_clients_update)

lemma disconnect_clients_update:
  "disconnect c (s\<lparr>clients := cl\<rparr>) = (disconnect c s)\<lparr>clients := cl\<rparr>"
proof -
  have say: "say l (s\<lparr>clients := cl\<rparr>) = (say l s)\<lparr>clients := cl\<rparr>" for l
    by (simp add: say_def)
  show ?thesis
    by (simp add: disconnect_def Let_def say fold_remove_clients_update)
qed

lemma subs_disconnect:
  "map_of (subscriptions (disconnect c s)) key =
     (case map_of (subscriptions s) key of None \<Rightarrow> None
      | Some xs \<Rightarrow> if removeAll c xs = [] then None else Some (removeAll c xs))"
proof (cases "map_of (subscriptions s) key")
  case None
  then show ?thesis
    by (simp add: disconnect_def Let_def subs_fold_remove)
next
  case (Some xs)
  then have "key \<in> set (map fst (subscriptions s))"
    by (metis map_of_eq_None_iff option.distinct(1) set_map)
  with Some show ?thesis
    by (simp add: disconnect_def Let_def subs_fold_remove)
qed

lemma registry_ok_say: "registry_ok s \<Longrightarrow> registry_ok (say l s)"
  by (simp add: registry_ok_def)

lemma registry_ok_emit: "registry_ok s \<Longrightarrow> registry_ok (emit c m s)"
  by (simp add: registry_ok_def)

lemma registry_ok_disconnect:
  assumes "registry_ok s"
  shows "registry_ok (disconnect c (s\<lparr>clients := removeAll c (clients s)\<rparr>))"
proof -
  let ?d = "disconnect c s"
  have ok: "registry_ok ?d"
    using assms by (simp add: disconnect_def Let_def registry_ok_fold_remove registry_ok_say)
  have cl: "clients ?d = clients s"
    by (simp add: disconnect_def Let_def)
  have "set xs \<subseteq> set (removeAll c (clients s))"
    if "map_of (subscriptions ?d) key = Some xs" for key xs
  proof -
    from that obtain ys where "xs = removeAll c ys"
      by (auto simp: subs_disconnect split: option.splits if_splits)
    moreover from ok that have "set xs \<subseteq> set (clients s)"
      by (simp add: registry_ok_def cl)
    ultimately show ?thesis by auto
  qed
  with ok show ?thesis
    by (simp add: disconnect_clients_update registry_ok_def)
qed

lemma registry_ok_unsubscribe: "registry_ok s \<Longrightarrow> registry_ok (unsubscribe c a sy s)"
  by (simp add: unsubscribe_def Let_def registry_ok_emit registry_ok_remove_subscriber registry_ok_say)




lemma Set_add_props:
  "Set_add x xs \<noteq> []" "distinct xs \<Longrightarrow> distinct (Set_add x xs)" "set (Set_add x xs) = insert x (set xs)"
  by (auto simp: Set_add_def)

lemma length_Set_add_1: "length (Set_add x xs) = Suc 0 \<longleftrightarrow> xs = [] \<or> xs = [x]"
  by (cases xs) (auto simp: Set_add_def)

lemma registry_ok_subscribe:
  assumes ok: "registry_ok s" and c: "c \<in> set (clients s)"
  shows "registry_ok (subscribe c a sy s)"
proof -
  let ?k = "subscriptionKey a sy"
  let ?m = "map_of (subscriptions s)"
  let ?old = "case ?m ?k of None \<Rightarrow> [] | Some xs \<Rightarrow> xs"
  let ?new = "Set_add c ?old"
  let ?s' = "subscribe c a sy s"
  have subs: "subscriptions ?s' = AList.update ?k ?new (subscriptions s)"
    by (simp add: subscribe_def Let_def)
  have cl: "clients ?s' = clients s"
    by (simp add: subscribe_def Let_def)
  have old: "distinct ?old \<and> set ?old \<subseteq> set (clients s)"
  proof (cases "?m ?k")
    case None
    then show ?thesis by simp
  next
    case (Some ys)
    with ok have "distinct ys \<and> set ys \<subseteq> set (clients s)"
      by (simp add: registry_ok_def)
    with Some show ?thesis by simp
  qed
  have keys: "distinct (map fst (subscriptions ?s'))"
    using ok by (simp add: subs registry_ok_def distinct_update)
  have sets: "xs \<noteq> [] \<and> distinct xs \<and> set xs \<subseteq> set (clients ?s')"
    if "map_of (subscriptions ?s') key = Some xs" for key xs
  proof (cases "key = ?k")
    case True
    with that have "xs = ?new" by (simp add: subs update_conv')
    then show ?thesis using old c by (simp add: Set_add_props cl)
  next
    case False
    with that have "?m key = Some xs" by (simp add: subs update_conv')
    with ok show ?thesis by (simp add: registry_ok_def cl)
  qed
  have d: "dom (map_of (pollingTimers s)) = dom ?m"
    using ok by (simp add: registry_ok_def)
  have doms: "dom (map_of (pollingTimers ?s')) = dom (map_of (subscriptions ?s'))"
  proof (cases "length ?new = 1")
    case True
    then have "pollingTimers ?s' = AList.update ?k (next_timer s) (pollingTimers s)"
      by (simp add: subscribe_def Let_def)
    then show ?thesis using d by (simp add: subs update_conv')
  next
    case False
    then have pt: "pollingTimers ?s' = pollingTimers s"
      by (simp add: subscribe_def Let_def)
    from False have "?old \<noteq> []" by (simp add: length_Set_add_1)
    then have "?k \<in> dom ?m" by (auto split: option.splits)
    then show ?thesis using d by (auto simp: subs update_conv' pt)
  qed
  show ?thesis
    unfolding registry_ok_def using keys sets doms by blast
qed




lemma publish_simps [simp]:
  "subscriptions (publish a sy d clock s) = subscriptions s"
  "pollingTimers (publish a sy d clock s) = pollingTimers s"
  "timers (publish a sy d clock s) = timers s"
  "next_timer (publish a sy d clock s) = next_timer s"
  "inflight (publish a sy d clock s) = inflight s"
  "redis (publish a sy d clock s) = redis s"
  "console (publish a sy d clock s) = console s"
  "clients (publish a sy d clock s) = clients s"
  "ALPHA_VANTAGE_KEY (publish a sy d clock s) = ALPHA_VANTAGE_KEY s"
  by (simp_all add: publish_def split: option.splits)

lemma handled_simps [simp]:
  "subscriptions (handled a sy r s) = subscriptions s"
  "pollingTimers (handled a sy r s) = pollingTimers s"
  "timers (handled a sy r s) = timers s"
  "next_timer (handled a sy r s) = next_timer s"
  "redis (handled a sy r s) = redis s"
  "sent (handled a sy r s) = sent s"
  "clients (handled a sy r s) = clients s"
  "ALPHA_VANTAGE_KEY (handled a sy r s) = ALPHA_VANTAGE_KEY s"
  by (simp_all add: handled_def split: sum.splits)

lemma tick_simps [simp]:
  "subscriptions (tick a sy s) = subscriptions s"
  "pollingTimers (tick a sy s) = pollingTimers s"
  "timers (tick a sy s) = timers s"
  "next_timer (tick a sy s) = next_timer s"
  "redis (tick a sy s) = redis s"
  "sent (tick a sy s) = sent s"
  "clients (tick a sy s) = clients s"
  "ALPHA_VANTAGE_KEY (tick a sy s) = ALPHA_VANTAGE_KEY s"
  by (simp_all add: tick_def split: property.splits option.splits)

lemma resume_simps [simp]:
  "subscriptions (resume i s) = subscriptions s"
  "pollingTimers (resume i s) = pollingTimers s"
  "timers (resume i s) = timers s"
  "next_timer (resume i s) = next_timer s"
  "redis (resume i s) = redis s"
  "sent (resume i s) = sent s"
  "console (resume i s) = console s"
  "clients (resume i s) = clients s"
  "ALPHA_VANTAGE_KEY (resume i s) = ALPHA_VANTAGE_KEY s"
  "inflight (resume i s) = take i (inflight s) @ drop (Suc i) (inflight s)"
  by (simp_all add: resume_def)

lemma cached_simps [simp]:
  "subscriptions (cached a sy d f clock s) = subscriptions s"
  "pollingTimers (cached a sy d f clock s) = pollingTimers s"
  "timers (cached a sy d f clock s) = timers s"
  "next_timer (cached a sy d f clock s) = next_timer s"
  "inflight (cached a sy d f clock s) = inflight s"
  "clients (cached a sy d f clock s) = clients s"
  "ALPHA_VANTAGE_KEY (cached a sy d f clock s) = ALPHA_VANTAGE_KEY s"
  by (simp_all add: cached_def Let_def split: option.splits)





lemma registry_ok_cong:
  assumes "subscriptions s' = subscriptions s" "pollingTimers s' = pollingTimers s"
    "set (clients s) \<subseteq> set (clients s')" "registry_ok s"
  shows "registry_ok s'"
proof -
  have "xs \<noteq> [] \<and> distinct xs \<and> set xs \<subseteq> set (clients s')"
    if "map_of (subscriptions s') key = Some xs" for key xs
  proof -
    from that assms(1) have "map_of (subscriptions s) key = Some xs" by simp
    with assms(4) have "xs \<noteq> [] \<and> distinct xs \<and> set xs \<subseteq> set (clients s)"
      by (simp add: registry_ok_def)
    with assms(3) show ?thesis by blast
  qed
  moreover have "distinct (map fst (subscriptions s'))"
    using assms(1,4) by (simp add: registry_ok_def)
  moreover have "dom (map_of (pollingTimers s')) = dom (map_of (subscriptions s'))"
    using assms(1,2,4) by (simp add: registry_ok_def)
  ultimately show ?thesis unfolding registry_ok_def by blast
qed

lemma registry_ok_step:
  assumes ok: "registry_ok s"
  shows "registry_ok (step e s)"
proof (cases e)
  case (Connection c)
  show ?thesis
    by (rule registry_ok_cong [OF _ _ _ ok]) (auto simp: Connection)
next
  case (Subscribe c a sy)
  then show ?thesis using ok by (simp add: registry_ok_subscribe)
next
  case (Unsubscribe c a sy)
  then show ?thesis using ok by (simp add: registry_ok_unsubscribe)
next
  case (Disconnect c)
  then show ?thesis using ok by (simp add: registry_ok_disconnect)
next
  case (Fire t)
  show ?thesis
    by (rule registry_ok_cong [OF _ _ _ ok]) (simp_all add: Fire split: option.splits)
next
  case (Settle_fetch i u)
  show ?thesis
    by (rule registry_ok_cong [OF _ _ _ ok]) (simp_all add: Settle_fetch split: pending.splits)
next
  case (Settle_cache i f clock)
  show ?thesis
    by (rule registry_ok_cong [OF _ _ _ ok]) (simp_all add: Settle_cache split: pending.splits)
qed

lemma registry_ok_init: "registry_ok (init k)"
  by (simp add: registry_ok_def init_def)

lemma registry_ok_fold: "registry_ok s \<Longrightarrow> registry_ok (fold step es s)"
  by (induction es arbitrary: s) (simp_all add: registry_ok_step)

lemma registry_ok_run: "registry_ok (run es (init k))"
  by (simp add: run_def registry_ok_fold registry_ok_init)





text \<open>The keys with an entry in \<open>pollingTimers\<close> are the keys with subscribers.\<close>

lemma polling_keys:
  "dom (map_of (pollingTimers (run es (init k)))) =
     {key. subscribers_of (run es (init k)) key \<noteq> []}"
proof -
  let ?s = "run es (init k)"
  have ok: "registry_ok ?s" by (rule registry_ok_run)
  have "key \<in> dom (map_of (subscriptions ?s)) \<longleftrightarrow> subscribers_of ?s key \<noteq> []" for key
  proof (cases "map_of (subscriptions ?s) key")
    case None
    then show ?thesis by (simp add: subscribers_of_def dom_def)
  next
    case (Some xs)
    with ok have "xs \<noteq> []" by (simp add: registry_ok_def)
    with Some show ?thesis by (simp add: subscribers_of_def dom_def)
  qed
  moreover have "dom (map_of (pollingTimers ?s)) = dom (map_of (subscriptions ?s))"
    using ok by (simp add: registry_ok_def)
  ultimately show ?thesis by blast
qed

subsection \<open>One timer per subscribed key\<close>

text \<open>
  Claim C1: after any sequence of subscribe, unsubscribe and disconnect operations, the keys
  with a live polling timer are the keys with a non-empty subscriber set, and each such key
  has at most one live timer.

  The entries of \<open>pollingTimers\<close> do follow the subscriber sets (\<open>polling_keys\<close>), but
  the running intervals do not: when the only subscriber of a key subscribes again, the Set
  still has size 1, \<open>startPolling\<close> runs a second time and overwrites the entry of the first
  interval without clearing it. The key then has two running intervals, and after the
  subscriber has left, the first one still runs for a key nobody is subscribed to.
\<close>

theorem resubscribe_leaks_timer:
  "let twice = run [Connection ''c'', Subscribe ''c'' ''STOCK'' ''AAPL'',
                    Subscribe ''c'' ''STOCK'' ''AAPL''] (init k);
       left = step (Unsubscribe ''c'' ''STOCK'' ''AAPL'') twice
   in subscribers_of twice ''STOCK:AAPL'' = [''c''] \<and>
      pollingTimers twice = [(''STOCK:AAPL'', 1)] \<and>
      live_timers twice ''STOCK:AAPL'' = [0, 1] \<and>
      subscriptions left = [] \<and> pollingTimers left = [] \<and>
      live_timers left ''STOCK:AAPL'' = [0]"
  by (simp add: server_defs subscribers_of_def live_timers_def)

subsection \<open>Subscribing twice\<close>

text \<open>
  Claim C7: subscribe is idempotent: subscribing a connection to a key twice in a row gives
  the same state as subscribing once, with one entry in the subscriber set and one polling
  start, and the second call is acknowledged too.

  The subscriber set and the acknowledgement are as claimed, the polling start is not: for
  a connection that is the only subscriber of the key, the second call starts a second
  interval and replaces the handle in \<open>pollingTimers\<close>.
\<close>

theorem second_subscribe_starts_again:
  "let once = run [Connection c, Subscribe c a sy] (init k);
       twice = step (Subscribe c a sy) once
   in subscriptions twice = subscriptions once \<and>
      sent twice = sent once @ [(c, Subscribed a sy)] \<and>
      map fst (timers once) = [0] \<and> map fst (timers twice) = [0, 1] \<and>
      map snd (pollingTimers once) = [0] \<and> map snd (pollingTimers twice) = [1]"
  by (simp add: server_defs)

subsection \<open>Fan-out\<close>

lemma market_updates_Nil [simp]: "market_updates a sy d clock [] = []"
  by (simp add: market_updates_def)

lemma sent_publish:
  "sent (publish a sy d clock s) =
     sent s @ market_updates a sy d clock (subscribers_of s (subscriptionKey a sy))"
  by (simp add: publish_def subscribers_of_def split: option.splits)

lemma step_Settle_cache:
  assumes "i < length (inflight s)" "inflight s ! i = Await_cache a sy d"
  shows "step (Settle_cache i failure clock) s = cached a sy d failure clock (resume i s)"
  using assms by simp

lemma step_Settle_fetch:
  assumes "i < length (inflight s)" "inflight s ! i = Await_fetch h a sy"
  shows "step (Settle_fetch i u) s = handled a sy (handler_resume h u) (resume i s)"
  using assms by simp

lemma sent_cached:
  "sent (cached a sy d failure clock s) =
     (case failure of
        Some m \<Rightarrow> sent s
      | None \<Rightarrow> sent s @ market_updates a sy d clock (subscribers_of s (subscriptionKey a sy)))"
  by (simp add: cached_def Let_def sent_publish subscribers_of_def split: option.splits)

lemma redis_cached:
  "redis (cached a sy d failure clock s) =
     (case failure of
        Some m \<Rightarrow> redis s
      | None \<Rightarrow> AList.update (''market_data:'' @ subscriptionKey a sy) (60, d) (redis s))"
  by (simp add: cached_def Let_def split: option.splits)

lemma console_cached:
  "console (cached a sy d failure clock s) =
     (case failure of
        Some m \<Rightarrow> console s @ [Error_fetching (subscriptionKey a sy) (Rejected m)]
      | None \<Rightarrow> console s)"
  by (simp add: cached_def Let_def split: option.splits)

lemma subscribers_of_resume [simp]: "subscribers_of (resume i s) key = subscribers_of s key"
  by (simp add: subscribers_of_def)

lemma received_none:
  "c \<notin> set xs \<Longrightarrow>
     filter (\<lambda>(socketId, m). socketId = c) (map (\<lambda>(n, x). (x, f n)) (enumerate k xs)) = []"
  by (induction xs arbitrary: k) auto

lemma received_one:
  "distinct xs \<Longrightarrow> c \<in> set xs \<Longrightarrow>
     \<exists>n<length xs. xs ! n = c \<and>
       filter (\<lambda>(socketId, m). socketId = c) (map (\<lambda>(n, x). (x, f n)) (enumerate k xs)) =
         [(c, f (k + n))]"
proof (induction xs arbitrary: k)
  case Nil
  then show ?case by simp
next
  case (Cons x xs)
  show ?case
  proof (cases "x = c")
    case True
    with Cons.prems have "c \<notin> set xs" by simp
    then have "filter (\<lambda>(socketId, m). socketId = c)
        (map (\<lambda>(n, x). (x, f n)) (enumerate (Suc k) xs)) = []"
      by (rule received_none)
    with True have "(x # xs) ! 0 = c \<and>
       filter (\<lambda>(socketId, m). socketId = c) (map (\<lambda>(n, x). (x, f n)) (enumerate k (x # xs))) =
         [(c, f (k + 0))]"
      by simp
    then show ?thesis by blast
  next
    case False
    with Cons.prems have "distinct xs" "c \<in> set xs" by simp_all
    from Cons.IH [OF this, of "Suc k"] obtain n where n: "n < length xs" "xs ! n = c"
      "filter (\<lambda>(socketId, m). socketId = c)
         (map (\<lambda>(n, x). (x, f n)) (enumerate (Suc k) xs)) = [(c, f (Suc k + n))]"
      by blast
    with False have "Suc n < length (x # xs) \<and> (x # xs) ! Suc n = c \<and>
       filter (\<lambda>(socketId, m). socketId = c) (map (\<lambda>(n, x). (x, f n)) (enumerate k (x # xs))) =
         [(c, f (k + Suc n))]"
      by simp
    then show ?thesis by blast
  qed
qed

lemma received_market_updates:
  assumes "distinct xs"
  shows "c \<in> set xs \<Longrightarrow>
           \<exists>n<length xs. xs ! n = c \<and>
             received c (market_updates a sy d clock xs) = [Market_update a sy d (clock n)]"
    and "c \<notin> set xs \<Longrightarrow> received c (market_updates a sy d clock xs) = []"
proof -
  show "received c (market_updates a sy d clock xs) = []" if "c \<notin> set xs"
    using received_none [OF that, of "\<lambda>n. Market_update a sy d (clock n)" 0]
    by (simp add: received_def market_updates_def)
  show "\<exists>n<length xs. xs ! n = c \<and>
          received c (market_updates a sy d clock xs) = [Market_update a sy d (clock n)]"
    if "c \<in> set xs"
    using received_one [OF assms that, of "\<lambda>n. Market_update a sy d (clock n)" 0]
    by (auto simp: received_def market_updates_def)
qed

lemma subscribers_ok:
  assumes "registry_ok s"
  shows "distinct (subscribers_of s key)" "set (subscribers_of s key) \<subseteq> set (clients s)"
proof -
  show "distinct (subscribers_of s key)"
  proof (cases "map_of (subscriptions s) key")
    case None
    then show ?thesis by (simp add: subscribers_of_def)
  next
    case (Some xs)
    with assms have "distinct xs" by (simp add: registry_ok_def)
    with Some show ?thesis by (simp add: subscribers_of_def)
  qed
  show "set (subscribers_of s key) \<subseteq> set (clients s)"
  proof (cases "map_of (subscriptions s) key")
    case None
    then show ?thesis by (simp add: subscribers_of_def)
  next
    case (Some xs)
    with assms have "set xs \<subseteq> set (clients s)" by (simp add: registry_ok_def)
    with Some show ?thesis by (simp add: subscribers_of_def)
  qed
qed

lemma gone_after_disconnect:
  assumes "registry_ok s"
  shows "c \<notin> set (subscribers_of (step (Disconnect c) s) key)"
proof (cases "c \<in> set (clients s)")
  case True
  have "registry_ok (step (Disconnect c) s)"
    using assms by (rule registry_ok_step)
  then have "set (subscribers_of (step (Disconnect c) s) key) \<subseteq> set (clients (step (Disconnect c) s))"
    by (rule subscribers_ok)
  moreover have "clients (step (Disconnect c) s) = removeAll c (clients s)"
    using True by (simp add: disconnect_clients_update disconnect_def Let_def)
  ultimately show ?thesis by auto
next
  case False
  moreover have "set (subscribers_of s key) \<subseteq> set (clients s)"
    using assms by (rule subscribers_ok)
  ultimately show ?thesis by auto
qed

subsection \<open>Failing fetches\<close>

lemma subscribe_simps [simp]:
  "redis (subscribe c a sy s) = redis s"
  "inflight (subscribe c a sy s) = inflight s"
  "clients (subscribe c a sy s) = clients s"
  "ALPHA_VANTAGE_KEY (subscribe c a sy s) = ALPHA_VANTAGE_KEY s"
  "sent (subscribe c a sy s) = sent s @ [(c, Subscribed a sy)]"
  by (simp_all add: subscribe_def Let_def)

lemma unsubscribe_simps [simp]:
  "redis (unsubscribe c a sy s) = redis s"
  "inflight (unsubscribe c a sy s) = inflight s"
  "clients (unsubscribe c a sy s) = clients s"
  "ALPHA_VANTAGE_KEY (unsubscribe c a sy s) = ALPHA_VANTAGE_KEY s"
  "sent (unsubscribe c a sy s) = sent s @ [(c, Unsubscribed a sy)]"
  by (simp_all add: unsubscribe_def Let_def)

lemma fold_remove_simps [simp]:
  "redis (fold (remove_subscriber c) ks s) = redis s"
  "inflight (fold (remove_subscriber c) ks s) = inflight s"
  "sent (fold (remove_subscriber c) ks s) = sent s"
  "ALPHA_VANTAGE_KEY (fold (remove_subscriber c) ks s) = ALPHA_VANTAGE_KEY s"
  by (induction ks arbitrary: s) simp_all

lemma disconnect_simps [simp]:
  "redis (disconnect c s) = redis s"
  "inflight (disconnect c s) = inflight s"
  "sent (disconnect c s) = sent s"
  "clients (disconnect c s) = clients s"
  "ALPHA_VANTAGE_KEY (disconnect c s) = ALPHA_VANTAGE_KEY s"
  by (simp_all add: disconnect_def Let_def)

lemma inflight_handled:
  "inflight (handled a sy r s) =
     (case r of Inl e \<Rightarrow> inflight s
      | Inr d \<Rightarrow> if truthy d then inflight s @ [Await_cache a sy d] else inflight s)"
  by (simp add: handled_def split: sum.splits)

lemma console_handled:
  "console (handled a sy r s) =
     (case r of Inl e \<Rightarrow> console s @ [Error_fetching (subscriptionKey a sy) e]
      | Inr d \<Rightarrow> console s)"
  by (simp add: handled_def split: sum.splits)

lemma api_key_step [simp]: "ALPHA_VANTAGE_KEY (step e s) = ALPHA_VANTAGE_KEY s"
  by (cases e) (simp_all split: option.splits pending.splits)

lemma api_key_fold: "ALPHA_VANTAGE_KEY (fold step es s) = ALPHA_VANTAGE_KEY s"
  by (induction es arbitrary: s) simp_all

lemma api_key_run [simp]: "ALPHA_VANTAGE_KEY (run es (init k)) = k"
  by (simp add: run_def api_key_fold init_def)

lemma redis_step:
  "redis (step e s) = redis s \<or>
   (\<exists>i clock a sy data. e = Settle_cache i None clock \<and> i < length (inflight s) \<and>
      inflight s ! i = Await_cache a sy data \<and>
      redis (step e s) =
        AList.update (''market_data:'' @ subscriptionKey a sy) (60, data) (redis s))"
proof (cases e)
  case (Settle_cache i failure clock)
  show ?thesis
  proof (cases "i < length (inflight s)")
    case True
    show ?thesis
    proof (cases "inflight s ! i")
      case (Await_fetch h a sy)
      with True Settle_cache show ?thesis by simp
    next
      case (Await_cache a sy d)
      show ?thesis
      proof (cases failure)
        case None
        with True Settle_cache Await_cache show ?thesis
          by (simp add: redis_cached)
      next
        case (Some m)
        with True Settle_cache Await_cache show ?thesis
          by (simp add: redis_cached)
      qed
    qed
  next
    case False
    with Settle_cache show ?thesis by simp
  qed
qed (simp_all split: option.splits pending.splits)

lemma failing_tick:
  assumes "map_of (timers s) t = Some tm"
    and "marketDataHandlers (timer_assetType tm) = Own h"
    and "handler_start h (ALPHA_VANTAGE_KEY s) = None"
    and "handler_resume h u = Inl e"
  shows "step (Settle_fetch (length (inflight s)) u) (step (Fire t) s) =
           say (Error_fetching (subscriptionKey (timer_assetType tm) (timer_symbol tm)) e) s"
  using assms by (simp add: tick_def handled_def resume_def say_def)

lemma failing_ticks:
  assumes "map_of (timers s) t = Some tm"
    and "marketDataHandlers (timer_assetType tm) = Own h"
    and "handler_start h (ALPHA_VANTAGE_KEY s) = None"
    and "\<forall>(u, e) \<in> set replies. handler_resume h u = Inl e"
  shows "fold step (concat (map (\<lambda>(u, e). [Fire t, Settle_fetch (length (inflight s)) u]) replies)) s =
           s\<lparr>console := console s @
                map (\<lambda>(u, e). Error_fetching
                      (subscriptionKey (timer_assetType tm) (timer_symbol tm)) e) replies\<rparr>"
  using assms
proof (induction replies arbitrary: s)
  case Nil
  then show ?case by simp
next
  case (Cons r replies)
  obtain u e where r: "r = (u, e)" by (cases r)
  let ?l = "Error_fetching (subscriptionKey (timer_assetType tm) (timer_symbol tm)) e"
  from Cons.prems r have e: "handler_resume h u = Inl e" by simp
  have one: "step (Settle_fetch (length (inflight s)) u) (step (Fire t) s) = say ?l s"
    using Cons.prems(1,2,3) e by (rule failing_tick)
  have rest: "fold step (concat (map (\<lambda>(u, e). [Fire t, Settle_fetch (length (inflight (say ?l s))) u])
                 replies)) (say ?l s) =
        (say ?l s)\<lparr>console := console (say ?l s) @
             map (\<lambda>(u, e). Error_fetching
                   (subscriptionKey (timer_assetType tm) (timer_symbol tm)) e) replies\<rparr>"
    using Cons.prems by (intro Cons.IH) simp_all
  have "fold step (concat (map (\<lambda>(u, e). [Fire t, Settle_fetch (length (inflight s)) u])
                 (r # replies))) s =
        fold step (concat (map (\<lambda>(u, e). [Fire t, Settle_fetch (length (inflight s)) u])
                 replies)) (say ?l s)"
    by (simp add: r one del: step.simps)
  also have "\<dots> = (say ?l s)\<lparr>console := console (say ?l s) @
             map (\<lambda>(u, e). Error_fetching
                   (subscriptionKey (timer_assetType tm) (timer_symbol tm)) e) replies\<rparr>"
    using rest by simp
  also have "\<dots> = s\<lparr>console := console s @
             map (\<lambda>(u, e). Error_fetching
                   (subscriptionKey (timer_assetType tm) (timer_symbol tm)) e) (r # replies)\<rparr>"
    by (simp add: r say_def)
  finally show ?case .
qed

text \<open>
  Claim C6: a tick whose fetch fails leaves the cached snapshot of the key unchanged, logs
  the failure and neither stops nor restarts the polling of the key; in particular three
  consecutive upstream errors leave the last snapshot in the cache and polling goes on.

  Any number of consecutive ticks of a running timer whose handler throws (the request is
  rejected, the reply is \<open>null\<close> or carries an \<open>Error Message\<close>) change nothing but the
  console, which gains one error line naming the key for each of them.
\<close>

theorem failed_fetches_only_log:
  assumes "map_of (timers s) t = Some tm"
    and "marketDataHandlers (timer_assetType tm) = Own h"
    and "handler_start h (ALPHA_VANTAGE_KEY s) = None"
    and "\<forall>(u, e) \<in> set replies. handler_resume h u = Inl e"
  shows "run (concat (map (\<lambda>(u, e). [Fire t, Settle_fetch (length (inflight s)) u]) replies)) s =
           s\<lparr>console := console s @
                map (\<lambda>(u, e). Error_fetching
                      (subscriptionKey (timer_assetType tm) (timer_symbol tm)) e) replies\<rparr>"
  unfolding run_def using assms by (rule failing_ticks)

theorem failed_fetches_only_log_witness:
  "let s = run [Connection ''c'', Subscribe ''c'' ''STOCK'' ''AAPL'', Fire 0,
                Settle_fetch 0 (Json (JObj [(''price'', JNum 190)])),
                Settle_cache 0 None (\<lambda>_. ''t0'')] (init (Some ''key''));
       tm = \<lparr>timer_assetType = ''STOCK'', timer_symbol = ''AAPL'', timer_interval = Millis 5000\<rparr>;
       failure = JObj [(''Error Message'', JStr ''Invalid API call'')];
       s' = run [Fire 0, Settle_fetch 0 (Fails ''timeout''),
                 Fire 0, Settle_fetch 0 (Json failure),
                 Fire 0, Settle_fetch 0 (Json JNull)] s
   in map_of (timers s) 0 = Some tm \<and>
      marketDataHandlers ''STOCK'' = Own STOCK \<and>
      handler_start STOCK (ALPHA_VANTAGE_KEY s) = None \<and>
      handler_resume STOCK (Fails ''timeout'') = Inl (Rejected ''timeout'') \<and>
      handler_resume STOCK (Json failure) = Inl (Error (JStr ''Invalid API call'')) \<and>
      handler_resume STOCK (Json JNull) = Inl TypeError \<and>
      redis s = [(''market_data:STOCK:AAPL'', 60, JObj [(''price'', JNum 190)])] \<and>
      s' = s\<lparr>console := console s @
                [Error_fetching ''STOCK:AAPL'' (Rejected ''timeout''),
                 Error_fetching ''STOCK:AAPL'' (Error (JStr ''Invalid API call'')),
                 Error_fetching ''STOCK:AAPL'' TypeError]\<rparr>"
proof -
  let ?s = "run [Connection ''c'', Subscribe ''c'' ''STOCK'' ''AAPL'', Fire 0,
                Settle_fetch 0 (Json (JObj [(''price'', JNum 190)])),
                Settle_cache 0 None (\<lambda>_. ''t0'')] (init (Some ''key''))"
  let ?tm = "\<lparr>timer_assetType = ''STOCK'', timer_symbol = ''AAPL'', timer_interval = Millis 5000\<rparr>"
  let ?f = "JObj [(''Error Message'', JStr ''Invalid API call'')]"
  let ?replies = "[(Fails ''timeout'', Rejected ''timeout''), (Json ?f, Error (JStr ''Invalid API call'')),
                   (Json JNull, TypeError)]"
  have h1: "map_of (timers ?s) 0 = Some ?tm"
    by (simp add: server_defs)
  have h2: "marketDataHandlers (timer_assetType ?tm) = Own STOCK"
    by (simp add: marketDataHandlers_def lookup_def)
  have h3: "handler_start STOCK (ALPHA_VANTAGE_KEY ?s) = None"
    by (simp add: no_key_def)
  have h4: "\<forall>(u, e) \<in> set ?replies. handler_resume STOCK u = Inl e"
    by (simp add: checked_def)
  have n: "length (inflight ?s) = 0"
    by (simp add: server_defs)
  have r: "redis ?s = [(''market_data:STOCK:AAPL'', 60, JObj [(''price'', JNum 190)])]"
    by (simp add: server_defs)
  from failed_fetches_only_log [OF h1 h2 h3 h4]
  have "run [Fire 0, Settle_fetch 0 (Fails ''timeout''), Fire 0, Settle_fetch 0 (Json ?f),
             Fire 0, Settle_fetch 0 (Json JNull)] ?s =
        ?s\<lparr>console := console ?s @
                [Error_fetching ''STOCK:AAPL'' (Rejected ''timeout''),
                 Error_fetching ''STOCK:AAPL'' (Error (JStr ''Invalid API call'')),
                 Error_fetching ''STOCK:AAPL'' TypeError]\<rparr>"
    by (simp add: n subscriptionKey_def)
  moreover have "marketDataHandlers ''STOCK'' = Own STOCK"
    using h2 by simp
  moreover have "handler_resume STOCK (Fails ''timeout'') = Inl (Rejected ''timeout'')"
    "handler_resume STOCK (Json ?f) = Inl (Error (JStr ''Invalid API call''))"
    "handler_resume STOCK (Json JNull) = Inl TypeError"
    using h4 by simp_all
  ultimately show ?thesis
    using h1 h3 r unfolding Let_def by blast
qed

subsection \<open>Time to live of the cache entries\<close>

lemma ttl_step:
  assumes "\<forall>key ttl data. map_of (redis s) key = Some (ttl, data) \<longrightarrow> ttl = 60"
  shows "\<forall>key ttl data. map_of (redis (step e s)) key = Some (ttl, data) \<longrightarrow> ttl = 60"
proof -
  from redis_step [of e s] show ?thesis
  proof
    assume "redis (step e s) = redis s"
    with assms show ?thesis by simp
  next
    assume "\<exists>i clock a sy data. e = Settle_cache i None clock \<and> i < length (inflight s) \<and>
      inflight s ! i = Await_cache a sy data \<and>
      redis (step e s) =
        AList.update (''market_data:'' @ subscriptionKey a sy) (60, data) (redis s)"
    then obtain a sy data where
      "redis (step e s) = AList.update (''market_data:'' @ subscriptionKey a sy) (60, data) (redis s)"
      by blast
    with assms show ?thesis
      by (simp add: update_conv')
  qed
qed

lemma ttl_fold:
  "\<forall>key ttl data. map_of (redis s) key = Some (ttl, data) \<longrightarrow> ttl = 60 \<Longrightarrow>
   \<forall>key ttl data. map_of (redis (fold step es s)) key = Some (ttl, data) \<longrightarrow> ttl = 60"
proof (induction es arbitrary: s)
  case Nil
  then show ?case by simp
next
  case (Cons e es)
  from Cons.prems have "\<forall>key ttl data. map_of (redis (step e s)) key = Some (ttl, data) \<longrightarrow> ttl = 60"
    by (rule ttl_step)
  then have "\<forall>key ttl data. map_of (redis (fold step es (step e s))) key = Some (ttl, data) \<longrightarrow> ttl = 60"
    by (rule Cons.IH)
  then show ?case by simp
qed

lemma own_handler:
  "marketDataHandlers a = Own h \<longleftrightarrow>
     a = ''STOCK'' \<and> h = STOCK \<or> a = ''CRYPTO'' \<and> h = CRYPTO \<or> a = ''FOREX'' \<and> h = FOREX"
  by (auto simp: marketDataHandlers_def lookup_def)

text \<open>A successful STOCK fetch: the entry lives 60 seconds, twice the interval is 10 seconds.\<close>

theorem stock_ttl_is_not_twice_the_interval:
  "let s = run [Connection ''c'', Subscribe ''c'' ''STOCK'' ''AAPL'', Fire 0,
                Settle_fetch 0 (Json (JObj [(''price'', JNum 190)])),
                Settle_cache 0 None (\<lambda>_. ''t0'')] (init (Some ''key''))
   in redis s = [(''market_data:STOCK:AAPL'', 60, JObj [(''price'', JNum 190)])] \<and>
      2 * period (interval_of ''STOCK'') = 10 * 1000"
  by (simp add: server_defs)

subsection \<open>A fetch that completes after its timer was stopped\<close>

lemma no_entry_no_timer:
  assumes "registry_ok s" and "map_of (subscriptions s) key = None"
  shows "map_of (pollingTimers s) key = None"
proof -
  from assms(1) have "dom (map_of (pollingTimers s)) = dom (map_of (subscriptions s))"
    by (simp add: registry_ok_def)
  with assms(2) show ?thesis by (metis domIff)
qed

lemma removeAll_only: "set xs \<subseteq> {c} \<Longrightarrow> removeAll c xs = []"
  by (induction xs) auto

lemma last_subscriber_leaves:
  assumes ok: "registry_ok s"
    and only: "set (subscribers_of s key) \<subseteq> {c}"
    and c: "c \<in> set (clients s)"
  shows "key = subscriptionKey a sy \<Longrightarrow>
           map_of (subscriptions (step (Unsubscribe c a sy) s)) key = None"
    and "map_of (subscriptions (step (Disconnect c) s)) key = None"
proof -
  have r: "removeAll c xs = []" if "map_of (subscriptions s) key = Some xs" for xs
  proof -
    from that only have "set xs \<subseteq> {c}" by (simp add: subscribers_of_def)
    then show ?thesis by (rule removeAll_only)
  qed
  show "map_of (subscriptions (step (Unsubscribe c a sy) s)) key = None"
    if "key = subscriptionKey a sy"
    using c r that
    by (simp add: unsubscribe_def Let_def subs_remove_subscriber split: option.splits)
  show "map_of (subscriptions (step (Disconnect c) s)) key = None"
    using c r by (simp add: subs_disconnect split: option.splits)
qed

lemma subscribers_of_None:
  "map_of (subscriptions s) key = None \<Longrightarrow> subscribers_of s key = []"
  by (simp add: subscribers_of_def)




subsection \<open>Asset classes outside the enumeration\<close>


lemma absent_handler:
  "marketDataHandlers a = Absent \<longleftrightarrow>
     a \<notin> {''STOCK'', ''CRYPTO'', ''FOREX''} \<and> a \<notin> set Object_prototype"
  by (simp add: marketDataHandlers_def lookup_def)

lemma default_interval:
  "a \<notin> set asset_classes \<Longrightarrow> a \<notin> set Object_prototype \<Longrightarrow> interval_of a = Millis 10000"
  by (simp add: interval_of_def pollingIntervals_def lookup_def asset_classes_def)

lemma subscribed_after_subscribe:
  "c \<in> set (subscribers_of (subscribe c a sy s) (subscriptionKey a sy))"
  by (simp add: subscribe_def Let_def subscribers_of_def update_conv' Set_add_def)

lemma first_subscriber_starts:
  assumes "subscribers_of s (subscriptionKey a sy) = []"
  shows "timers (subscribe c a sy s) =
           timers s @ [(next_timer s, \<lparr>timer_assetType = a, timer_symbol = sy,
                                        timer_interval = interval_of a\<rparr>)]"
  using assms
  by (simp add: subscribe_def Let_def subscribers_of_def Set_add_def split: option.splits)



subsection \<open>Health check\<close>

lemma clients_step:
  "clients (step e s) =
     (case e of
        Connection c \<Rightarrow> if c \<in> set (clients s) then clients s else clients s @ [c]
      | Disconnect c \<Rightarrow> removeAll c (clients s)
      | _ \<Rightarrow> clients s)"
proof (cases e)
  case (Disconnect c)
  then show ?thesis
    by (simp add: disconnect_clients_update)
qed (simp_all split: option.splits pending.splits)

lemma distinct_clients_step: "distinct (clients s) \<Longrightarrow> distinct (clients (step e s))"
  by (cases e) (simp_all add: clients_step distinct_removeAll del: step.simps)

lemma distinct_clients_fold: "distinct (clients s) \<Longrightarrow> distinct (clients (fold step es s))"
  by (induction es arbitrary: s) (simp_all add: distinct_clients_step del: step.simps)

lemma distinct_clients_run: "distinct (clients (run es (init k)))"
  by (simp add: run_def distinct_clients_fold init_def)

text \<open>The answer is the same with and without a running timer.\<close>

theorem health_is_blind_to_timers:
  "let s1 = run [Connection ''c''] (init None);
       s2 = run [Connection ''c'', Subscribe ''c'' ''STOCK'' ''AAPL''] (init None)
   in health ''t'' s1 = health ''t'' s2 \<and> length (pollingTimers s1) = 0 \<and>
      length (pollingTimers s2) = 1 \<and> length (timers s2) = 1"
  by (simp add: server_defs)

text \<open>
  Claim C9: the synchronous health query returns both the current connection count and the
  count of currently active polling tasks.

  As amended: the answer has three fields, the status \<open>healthy\<close>, the time of the query and
  the number of connected sockets (each counted once); it depends on nothing else, so it
  says nothing about polling timers.
\<close>

theorem health_reports_connections:
  "let s = run es (init k)
   in health now s =
        JObj [(''status'', JStr ''healthy''), (''timestamp'', JStr now),
              (''connections'', JNum (int (length (clients s))))] \<and>
      distinct (clients s) \<and>
      (\<forall>s'. clients s' = clients s \<longrightarrow> health now s' = health now s)"
  by (simp add: Let_def health_def distinct_clients_run)

theorem health_reports_connections_witness:
  "let s = run [Connection ''c'', Subscribe ''c'' ''STOCK'' ''AAPL''] (init None);
       s' = run [Connection ''c''] (init None)
   in clients s' = clients s \<and> health ''t'' s' = health ''t'' s \<and>
      health ''t'' s = JObj [(''status'', JStr ''healthy''), (''timestamp'', JStr ''t''),
                             (''connections'', JNum 1)]"
proof -
  let ?s = "run [Connection ''c'', Subscribe ''c'' ''STOCK'' ''AAPL''] (init None)"
  let ?s' = "run [Connection ''c''] (init None)"
  have c: "clients ?s = [''c'']"
    by (simp add: server_defs)
  have h: "clients ?s' = clients ?s"
    by (simp add: server_defs)
  note t = health_reports_connections
    [where es = "[Connection ''c'', Subscribe ''c'' ''STOCK'' ''AAPL'']" and k = None
       and now = "''t''", unfolded Let_def]
  from t h have "health ''t'' ?s' = health ''t'' ?s"
    by blast
  moreover from t have "health ''t'' ?s =
      JObj [(''status'', JStr ''healthy''), (''timestamp'', JStr ''t''),
            (''connections'', JNum (int (length (clients ?s))))]"
    by blast
  then have "health ''t'' ?s =
      JObj [(''status'', JStr ''healthy''), (''timestamp'', JStr ''t''), (''connections'', JNum 1)]"
    by (simp only: c) simp
  ultimately show ?thesis
    using h unfolding Let_def by blast
qed

subsection \<open>The index of the subscription relation\<close>

text \<open>
  No function of what the server holds besides \<open>subscriptions\<close> tells which keys a
  connection is subscribed to: two runs that differ only in the connection that subscribes
  agree on all of it.
\<close>

theorem no_second_index:
  "\<not> (\<exists>index2. \<forall>es c key.
         (key \<in> index2 (besides_subscriptions (run es (init None))) c) =
         (c \<in> set (subscribers_of (run es (init None)) key)))"
proof
  assume "\<exists>index2. \<forall>es c key.
         (key \<in> index2 (besides_subscriptions (run es (init None))) c) =
         (c \<in> set (subscribers_of (run es (init None)) key))"
  then obtain index2 where i:
    "\<And>es c key. (key \<in> index2 (besides_subscriptions (run es (init None))) c) =
         (c \<in> set (subscribers_of (run es (init None)) key))"
    by blast
  let ?A = "[Connection ''a'', Connection ''b'', Subscribe ''a'' ''STOCK'' ''AAPL'']"
  let ?B = "[Connection ''a'', Connection ''b'', Subscribe ''b'' ''STOCK'' ''AAPL'']"
  have same: "besides_subscriptions (run ?A (init None)) = besides_subscriptions (run ?B (init None))"
    by (simp add: server_defs besides_subscriptions_def)
  have a: "''a'' \<in> set (subscribers_of (run ?A (init None)) ''STOCK:AAPL'')"
    by (simp add: server_defs subscribers_of_def)
  have b: "''a'' \<notin> set (subscribers_of (run ?B (init None)) ''STOCK:AAPL'')"
    by (simp add: server_defs subscribers_of_def)
  from a have "''STOCK:AAPL'' \<in> index2 (besides_subscriptions (run ?A (init None))) ''a''"
    by (simp only: i)
  then have "''STOCK:AAPL'' \<in> index2 (besides_subscriptions (run ?B (init None))) ''a''"
    by (simp only: same)
  then have "''a'' \<in> set (subscribers_of (run ?B (init None)) ''STOCK:AAPL'')"
    by (simp only: i)
  with b show False by contradiction
qed

lemma registry_ok_keys: "registry_ok s \<Longrightarrow> distinct (map fst (subscriptions s))"
  by (simp add: registry_ok_def)

lemma scan_iff:
  "key \<in> set (map fst (filter (\<lambda>(k, xs). c \<in> set xs) al)) \<longleftrightarrow>
     (\<exists>xs. (key, xs) \<in> set al \<and> c \<in> set xs)"
  by (induction al) auto

lemma keys_of_iff:
  assumes "distinct (map fst (subscriptions s))"
  shows "key \<in> set (keys_of s c) \<longleftrightarrow> c \<in> set (subscribers_of s key)"
proof -
  have "key \<in> set (keys_of s c) \<longleftrightarrow> (\<exists>xs. (key, xs) \<in> set (subscriptions s) \<and> c \<in> set xs)"
    unfolding keys_of_def by (rule scan_iff)
  also have "\<dots> \<longleftrightarrow> (\<exists>xs. map_of (subscriptions s) key = Some xs \<and> c \<in> set xs)"
    using assms by simp
  also have "\<dots> \<longleftrightarrow> c \<in> set (subscribers_of s key)"
    by (cases "map_of (subscriptions s) key") (simp_all add: subscribers_of_def)
  finally show ?thesis .
qed

text \<open>
  Claim C4: the subscription relation is kept as two indexes, key to connections and
  connection to keys, and in every reachable state the two are mutual inverses.

  As amended: the relation is kept as one index, \<open>subscriptions\<close>, from a key to its Set
  of connections, with one entry per key. The keys of a connection are found by scanning
  it, and that scan is the inverse of the lookup in every reachable state; after the
  disconnect of a connection the scan finds no key for it.
\<close>

theorem one_index:
  "let s = run es (init k)
   in distinct (map fst (subscriptions s)) \<and>
      (\<forall>c key. key \<in> set (keys_of s c) \<longleftrightarrow> c \<in> set (subscribers_of s key)) \<and>
      (\<forall>c. keys_of (step (Disconnect c) s) c = [])"
proof -
  let ?s = "run es (init k)"
  have ok: "registry_ok ?s"
    by (rule registry_ok_run)
  then have d: "distinct (map fst (subscriptions ?s))"
    by (rule registry_ok_keys)
  have gone: "keys_of (step (Disconnect c) ?s) c = []" for c
  proof -
    let ?d = "step (Disconnect c) ?s"
    have "registry_ok ?d"
      using ok by (rule registry_ok_step)
    then have "distinct (map fst (subscriptions ?d))"
      by (rule registry_ok_keys)
    then have "key \<in> set (keys_of ?d c) \<longleftrightarrow> c \<in> set (subscribers_of ?d key)" for key
      by (rule keys_of_iff)
    moreover have "c \<notin> set (subscribers_of ?d key)" for key
      using ok by (rule gone_after_disconnect)
    ultimately have "key \<notin> set (keys_of ?d c)" for key
      by (simp only: not_False_eq_True)
    then have "set (keys_of ?d c) = {}"
      by (simp only: set_eq_iff empty_iff simp_thms)
    then show ?thesis
      by (simp only: set_empty)
  qed
  show ?thesis
    by (simp only: Let_def d keys_of_iff [OF d] gone simp_thms)
qed

theorem one_index_witness:
  "let s = run [Connection ''a'', Connection ''b'', Subscribe ''a'' ''STOCK'' ''AAPL'',
                Subscribe ''b'' ''STOCK'' ''AAPL'', Subscribe ''a'' ''CRYPTO'' ''btc''] (init None)
   in ''a'' \<in> set (subscribers_of s ''CRYPTO:btc'') \<and> ''CRYPTO:btc'' \<in> set (keys_of s ''a'') \<and>
      ''b'' \<notin> set (subscribers_of s ''CRYPTO:btc'') \<and> ''CRYPTO:btc'' \<notin> set (keys_of s ''b'') \<and>
      keys_of (step (Disconnect ''a'') s) ''a'' = []"
proof -
  let ?es = "[Connection ''a'', Connection ''b'', Subscribe ''a'' ''STOCK'' ''AAPL'',
                Subscribe ''b'' ''STOCK'' ''AAPL'', Subscribe ''a'' ''CRYPTO'' ''btc'']"
  let ?s = "run ?es (init None)"
  have a: "''a'' \<in> set (subscribers_of ?s ''CRYPTO:btc'')"
    by (simp add: server_defs subscribers_of_def)
  have b: "''b'' \<notin> set (subscribers_of ?s ''CRYPTO:btc'')"
    by (simp add: server_defs subscribers_of_def)
  note t = one_index [where es = ?es and k = None, unfolded Let_def]
  from t have iff: "key \<in> set (keys_of ?s c) \<longleftrightarrow> c \<in> set (subscribers_of ?s key)" for c key
    by (elim conjE allE)
  from t have gone: "keys_of (step (Disconnect c) ?s) c = []" for c
    by (elim conjE allE)
  have "''CRYPTO:btc'' \<in> set (keys_of ?s ''a'')"
    using a by (simp only: iff)
  moreover have "''CRYPTO:btc'' \<notin> set (keys_of ?s ''b'')"
    using b by (simp only: iff not_False_eq_True)
  moreover have "keys_of (step (Disconnect ''a'') ?s) ''a'' = []"
    by (rule gone)
  ultimately show ?thesis
    using a b by (simp only: Let_def simp_thms)
qed

subsection \<open>What gets cached and published\<close>

lemma resume_Json:
  "handler_resume h u = Inr d \<Longrightarrow> handler_resume h (Json d) = Inr d"
proof (cases u)
  case (Fails m)
  assume "handler_resume h u = Inr d"
  with Fails show ?thesis by simp
next
  case (Json d')
  assume r: "handler_resume h u = Inr d"
  show ?thesis
  proof (cases h)
    case CRYPTO
    then show ?thesis by simp
  next
    case STOCK
    with r Json have "checked d' = Inr d" by simp
    then have "d' = d"
      by (auto simp: checked_def split: sum.splits option.splits if_splits)
    with r Json STOCK show ?thesis by simp
  next
    case FOREX
    with r Json have "checked d' = Inr d" by simp
    then have "d' = d"
      by (auto simp: checked_def split: sum.splits option.splits if_splits)
    with r Json FOREX show ?thesis by simp
  qed
qed

lemma inherited_truthy:
  assumes "inherited_call name sy = Inr d" and "truthy d"
  shows "name = ''constructor'' \<or> name = ''toString''"
  using assms by (auto simp: inherited_call_def split: if_splits)

lemma set_resume: "set (inflight (resume i s)) \<subseteq> set (inflight s)"
proof -
  have "set (take i xs @ drop (Suc i) xs) \<subseteq> set xs" for xs :: "pending list"
    using set_take_subset [of i xs] set_drop_subset [of "Suc i" xs] by auto
  then show ?thesis by simp
qed

lemma set_update_subset: "set (AList.update k v al) \<subseteq> insert (k, v) (set al)"
  by (induction al) auto

lemma feed_okI:
  assumes "\<And>h a sy. Await_fetch h a sy \<in> set (inflight s) \<Longrightarrow>
             marketDataHandlers a = Own h \<and> handler_start h (ALPHA_VANTAGE_KEY s) = None"
    and "\<And>a sy data. Await_cache a sy data \<in> set (inflight s) \<Longrightarrow>
             supplies (ALPHA_VANTAGE_KEY s) a data"
    and "\<And>c a sy data now. (c, Market_update a sy data now) \<in> set (sent s) \<Longrightarrow>
             supplies (ALPHA_VANTAGE_KEY s) a data"
    and "\<And>key ttl data. (key, ttl, data) \<in> set (redis s) \<Longrightarrow>
             ttl = 60 \<and> (\<exists>a sy. key = ''market_data:'' @ subscriptionKey a sy \<and>
                            supplies (ALPHA_VANTAGE_KEY s) a data)"
  shows "feed_ok s"
  unfolding feed_ok_def using assms by blast

lemma feed_ok_fetch:
  assumes "feed_ok s" and "Await_fetch h a sy \<in> set (inflight s)"
  shows "marketDataHandlers a = Own h \<and> handler_start h (ALPHA_VANTAGE_KEY s) = None"
proof -
  from assms(1) have x: "\<forall>h a sy. Await_fetch h a sy \<in> set (inflight s) \<longrightarrow>
        marketDataHandlers a = Own h \<and> handler_start h (ALPHA_VANTAGE_KEY s) = None"
    unfolding feed_ok_def by (rule conjunct1)
  show ?thesis
    by (rule x [rule_format, OF assms(2)])
qed

lemma feed_ok_cache:
  "feed_ok s \<Longrightarrow> Await_cache a sy data \<in> set (inflight s) \<Longrightarrow>
     supplies (ALPHA_VANTAGE_KEY s) a data"
  unfolding feed_ok_def by blast

lemma feed_ok_sent:
  "feed_ok s \<Longrightarrow> (c, Market_update a sy data now) \<in> set (sent s) \<Longrightarrow>
     supplies (ALPHA_VANTAGE_KEY s) a data"
  unfolding feed_ok_def by blast

lemma feed_ok_redis:
  "feed_ok s \<Longrightarrow> (key, ttl, data) \<in> set (redis s) \<Longrightarrow>
     ttl = 60 \<and> (\<exists>a sy. key = ''market_data:'' @ subscriptionKey a sy \<and>
                    supplies (ALPHA_VANTAGE_KEY s) a data)"
  unfolding feed_ok_def by blast

lemma feed_ok_mono:
  assumes ok: "feed_ok s"
    and "set (inflight s') \<subseteq> set (inflight s)"
    and "redis s' = redis s"
    and "ALPHA_VANTAGE_KEY s' = ALPHA_VANTAGE_KEY s"
    and "\<And>c a sy data now. (c, Market_update a sy data now) \<in> set (sent s') \<Longrightarrow>
           (c, Market_update a sy data now) \<in> set (sent s)"
  shows "feed_ok s'"
proof (rule feed_okI)
  fix h a sy assume "Await_fetch h a sy \<in> set (inflight s')"
  with assms(2) have "Await_fetch h a sy \<in> set (inflight s)" by blast
  with ok show "marketDataHandlers a = Own h \<and> handler_start h (ALPHA_VANTAGE_KEY s') = None"
    by (simp only: assms(4) feed_ok_fetch)
next
  fix a sy data assume "Await_cache a sy data \<in> set (inflight s')"
  with assms(2) have "Await_cache a sy data \<in> set (inflight s)" by blast
  with ok show "supplies (ALPHA_VANTAGE_KEY s') a data"
    by (simp only: assms(4) feed_ok_cache)
next
  fix c a sy data now assume "(c, Market_update a sy data now) \<in> set (sent s')"
  then have "(c, Market_update a sy data now) \<in> set (sent s)" by (rule assms(5))
  with ok show "supplies (ALPHA_VANTAGE_KEY s') a data"
    by (simp only: assms(4) feed_ok_sent)
next
  fix key ttl data assume "(key, ttl, data) \<in> set (redis s')"
  then have "(key, ttl, data) \<in> set (redis s)" by (simp only: assms(3))
  with ok show "ttl = 60 \<and> (\<exists>a sy. key = ''market_data:'' @ subscriptionKey a sy \<and>
                    supplies (ALPHA_VANTAGE_KEY s') a data)"
    by (simp only: assms(4) feed_ok_redis)
qed

lemma feed_ok_await:
  assumes ok: "feed_ok s"
    and p: "case p of
              Await_fetch h a sy \<Rightarrow>
                marketDataHandlers a = Own h \<and> handler_start h (ALPHA_VANTAGE_KEY s) = None
            | Await_cache a sy data \<Rightarrow> supplies (ALPHA_VANTAGE_KEY s) a data"
  shows "feed_ok (s\<lparr>inflight := inflight s @ [p]\<rparr>)"
proof (rule feed_okI)
  fix h a sy assume "Await_fetch h a sy \<in> set (inflight (s\<lparr>inflight := inflight s @ [p]\<rparr>))"
  then have "Await_fetch h a sy \<in> set (inflight s) \<or> p = Await_fetch h a sy" by auto
  then show "marketDataHandlers a = Own h \<and>
      handler_start h (ALPHA_VANTAGE_KEY (s\<lparr>inflight := inflight s @ [p]\<rparr>)) = None"
    using feed_ok_fetch [OF ok] p by auto
next
  fix a sy data assume "Await_cache a sy data \<in> set (inflight (s\<lparr>inflight := inflight s @ [p]\<rparr>))"
  then have "Await_cache a sy data \<in> set (inflight s) \<or> p = Await_cache a sy data" by auto
  then show "supplies (ALPHA_VANTAGE_KEY (s\<lparr>inflight := inflight s @ [p]\<rparr>)) a data"
    using feed_ok_cache [OF ok] p by auto
next
  fix c a sy data now
  assume "(c, Market_update a sy data now) \<in> set (sent (s\<lparr>inflight := inflight s @ [p]\<rparr>))"
  then show "supplies (ALPHA_VANTAGE_KEY (s\<lparr>inflight := inflight s @ [p]\<rparr>)) a data"
    using feed_ok_sent [OF ok] by simp
next
  fix key ttl data
  assume "(key, ttl, data) \<in> set (redis (s\<lparr>inflight := inflight s @ [p]\<rparr>))"
  then show "ttl = 60 \<and> (\<exists>a sy. key = ''market_data:'' @ subscriptionKey a sy \<and>
                    supplies (ALPHA_VANTAGE_KEY (s\<lparr>inflight := inflight s @ [p]\<rparr>)) a data)"
    using feed_ok_redis [OF ok] by simp
qed

lemma feed_ok_say: "feed_ok s \<Longrightarrow> feed_ok (say l s)"
  by (rule feed_ok_mono) simp_all

lemma feed_ok_resume: "feed_ok s \<Longrightarrow> feed_ok (resume i s)"
  by (rule feed_ok_mono) (simp_all add: set_resume del: resume_simps(10))

lemma feed_ok_handled:
  assumes ok: "feed_ok s"
    and r: "\<And>data. r = Inr data \<Longrightarrow> truthy data \<Longrightarrow> supplies (ALPHA_VANTAGE_KEY s) a data"
  shows "feed_ok (handled a sy r s)"
proof (cases r)
  case (Inl e)
  with ok show ?thesis by (simp add: handled_def feed_ok_say)
next
  case (Inr data)
  show ?thesis
  proof (cases "truthy data")
    case True
    with Inr r have "supplies (ALPHA_VANTAGE_KEY s) a data" by simp
    then have "feed_ok (s\<lparr>inflight := inflight s @ [Await_cache a sy data]\<rparr>)"
      using ok by (intro feed_ok_await) simp_all
    with Inr True show ?thesis by (simp add: handled_def)
  next
    case False
    with Inr ok show ?thesis by (simp add: handled_def)
  qed
qed

lemma feed_ok_tick:
  assumes ok: "feed_ok s"
  shows "feed_ok (tick a sy s)"
proof (cases "marketDataHandlers a")
  case Absent
  with ok show ?thesis by (simp add: tick_def feed_ok_say)
next
  case (Inherited name)
  show ?thesis
  proof (cases "name = ''__proto__''")
    case True
    with Inherited ok show ?thesis by (simp add: tick_def feed_ok_say)
  next
    case False
    have "feed_ok (handled a sy (inherited_call name sy) s)"
    proof (rule feed_ok_handled [OF ok])
      fix data assume "inherited_call name sy = Inr data" and t: "truthy data"
      then have "name = ''constructor'' \<or> name = ''toString''"
        by (rule inherited_truthy)
      with Inherited t show "supplies (ALPHA_VANTAGE_KEY s) a data"
        by (simp add: supplies_def)
    qed
    with Inherited False show ?thesis by (simp add: tick_def)
  qed
next
  case (Own h)
  show ?thesis
  proof (cases "handler_start h (ALPHA_VANTAGE_KEY s)")
    case None
    with Own have "feed_ok (s\<lparr>inflight := inflight s @ [Await_fetch h a sy]\<rparr>)"
      using ok by (intro feed_ok_await) simp_all
    with Own None show ?thesis by (simp add: tick_def)
  next
    case (Some r)
    then have "r = Inr JNull"
      by (cases h) (simp_all split: if_splits)
    then have "handled a sy r s = s"
      by (simp add: handled_def)
    with Own Some ok show ?thesis by (simp add: tick_def)
  qed
qed

lemma feed_ok_cached:
  assumes ok: "feed_ok s" and sup: "supplies (ALPHA_VANTAGE_KEY s) a data"
  shows "feed_ok (cached a sy data failure clock s)"
proof (cases failure)
  case (Some m)
  with ok show ?thesis by (simp add: cached_def feed_ok_say)
next
  case None
  let ?s' = "cached a sy data failure clock s"
  show ?thesis
  proof (rule feed_okI)
    fix h a' sy' assume "Await_fetch h a' sy' \<in> set (inflight ?s')"
    then show "marketDataHandlers a' = Own h \<and> handler_start h (ALPHA_VANTAGE_KEY ?s') = None"
      using feed_ok_fetch [OF ok] by simp
  next
    fix a' sy' d assume "Await_cache a' sy' d \<in> set (inflight ?s')"
    then show "supplies (ALPHA_VANTAGE_KEY ?s') a' d"
      using feed_ok_cache [OF ok] by simp
  next
    fix c a' sy' d now' assume "(c, Market_update a' sy' d now') \<in> set (sent ?s')"
    then have "(c, Market_update a' sy' d now') \<in> set (sent s) \<or> a' = a \<and> d = data"
      by (auto simp: sent_cached None market_updates_def)
    then show "supplies (ALPHA_VANTAGE_KEY ?s') a' d"
      using feed_ok_sent [OF ok] sup by auto
  next
    fix key ttl d assume "(key, ttl, d) \<in> set (redis ?s')"
    then have "(key, ttl, d) \<in> set (redis s) \<or>
        (key, ttl, d) = (''market_data:'' @ subscriptionKey a sy, 60, data)"
      using set_update_subset [of "''market_data:'' @ subscriptionKey a sy" "(60, data)" "redis s"]
      by (auto simp: redis_cached None)
    then show "ttl = 60 \<and> (\<exists>a sy. key = ''market_data:'' @ subscriptionKey a sy \<and>
                    supplies (ALPHA_VANTAGE_KEY ?s') a d)"
    proof
      assume "(key, ttl, d) \<in> set (redis s)"
      then show ?thesis using feed_ok_redis [OF ok] by simp
    next
      assume "(key, ttl, d) = (''market_data:'' @ subscriptionKey a sy, 60, data)"
      then show ?thesis using sup by auto
    qed
  qed
qed

lemma feed_ok_step:
  assumes ok: "feed_ok s"
  shows "feed_ok (step e s)"
proof (cases e)
  case (Connection c)
  show ?thesis
    by (rule feed_ok_mono [OF ok]) (simp_all add: Connection split: if_splits)
next
  case (Subscribe c a sy)
  show ?thesis
    by (rule feed_ok_mono [OF ok]) (simp_all add: Subscribe split: if_splits)
next
  case (Unsubscribe c a sy)
  show ?thesis
    by (rule feed_ok_mono [OF ok]) (simp_all add: Unsubscribe split: if_splits)
next
  case (Disconnect c)
  show ?thesis
    by (rule feed_ok_mono [OF ok]) (simp_all add: Disconnect disconnect_clients_update split: if_splits)
next
  case (Fire t)
  show ?thesis
  proof (cases "map_of (timers s) t")
    case None
    with Fire ok show ?thesis by simp
  next
    case (Some tm)
    with Fire ok show ?thesis by (simp add: feed_ok_tick)
  qed
next
  case (Settle_fetch i u)
  show ?thesis
  proof (cases "i < length (inflight s)")
    case False
    with Settle_fetch ok show ?thesis by simp
  next
    case True
    show ?thesis
    proof (cases "inflight s ! i")
      case (Await_cache a sy d)
      with True Settle_fetch ok show ?thesis by simp
    next
      case (Await_fetch h a sy)
      with True have "Await_fetch h a sy \<in> set (inflight s)"
        by (metis nth_mem)
      with ok have h: "marketDataHandlers a = Own h \<and> handler_start h (ALPHA_VANTAGE_KEY s) = None"
        by (rule feed_ok_fetch)
      have "feed_ok (handled a sy (handler_resume h u) (resume i s))"
      proof (rule feed_ok_handled [OF feed_ok_resume [OF ok]])
        fix data assume r: "handler_resume h u = Inr data" and t: "truthy data"
        from r have "handler_resume h (Json data) = Inr data"
          by (rule resume_Json)
        with h t show "supplies (ALPHA_VANTAGE_KEY (resume i s)) a data"
          by (simp add: supplies_def)
      qed
      with True Settle_fetch Await_fetch show ?thesis by simp
    qed
  qed
next
  case (Settle_cache i failure clock)
  show ?thesis
  proof (cases "i < length (inflight s)")
    case False
    with Settle_cache ok show ?thesis by simp
  next
    case True
    show ?thesis
    proof (cases "inflight s ! i")
      case (Await_fetch h a sy)
      with True Settle_cache ok show ?thesis by simp
    next
      case (Await_cache a sy d)
      with True have "Await_cache a sy d \<in> set (inflight s)"
        by (metis nth_mem)
      with ok have "supplies (ALPHA_VANTAGE_KEY s) a d"
        by (rule feed_ok_cache)
      then have "feed_ok (cached a sy d failure clock (resume i s))"
        using feed_ok_resume [OF ok] by (intro feed_ok_cached) simp_all
      with True Settle_cache Await_cache show ?thesis by simp
    qed
  qed
qed

lemma feed_ok_fold: "feed_ok s \<Longrightarrow> feed_ok (fold step es s)"
  by (induction es arbitrary: s) (simp_all add: feed_ok_step del: step.simps)

lemma feed_ok_run: "feed_ok (run es (init k))"
proof -
  have "feed_ok (init k)"
    by (rule feed_okI) (simp_all add: init_def)
  then show ?thesis
    unfolding run_def by (rule feed_ok_fold)
qed

lemma supplies_classes:
  assumes "supplies k a d"
  shows "a \<in> {''STOCK'', ''CRYPTO'', ''FOREX'', ''constructor'', ''toString''} \<and> truthy d \<and>
         (a = ''STOCK'' \<or> a = ''FOREX'' \<longrightarrow> \<not> no_key k)"
proof (cases "marketDataHandlers a")
  case Absent
  with assms show ?thesis by (simp add: supplies_def)
next
  case (Inherited name)
  then have "name = a"
    by (simp add: marketDataHandlers_def lookup_def split: option.splits if_splits)
  with Inherited assms have "a = ''constructor'' \<or> a = ''toString''" "truthy d"
    by (simp_all add: supplies_def)
  then show ?thesis by auto
next
  case (Own h)
  with assms have t: "truthy d" and st: "handler_start h k = None"
    by (simp_all add: supplies_def)
  from Own have "a = ''STOCK'' \<and> h = STOCK \<or> a = ''CRYPTO'' \<and> h = CRYPTO \<or>
      a = ''FOREX'' \<and> h = FOREX"
    by (simp only: own_handler)
  with st t show ?thesis
    by (auto split: if_splits)
qed

lemma successful_tick:
  assumes "map_of (timers s) t = Some tm"
    and "marketDataHandlers (timer_assetType tm) = Own h"
    and "handler_start h (ALPHA_VANTAGE_KEY s) = None"
    and "handler_resume h u = Inr data"
    and "truthy data"
  shows "run [Fire t, Settle_fetch (length (inflight s)) u,
              Settle_cache (length (inflight s)) None clock] s =
           publish (timer_assetType tm) (timer_symbol tm) data clock
             (s\<lparr>redis := AList.update
                  (''market_data:'' @ subscriptionKey (timer_assetType tm) (timer_symbol tm))
                  (60, data) (redis s)\<rparr>)"
  using assms by (simp add: run_def tick_def handled_def resume_def cached_def Let_def)

lemma tick_without_handler:
  assumes "a \<notin> {''STOCK'', ''CRYPTO'', ''FOREX''} \<and> a \<notin> set Object_prototype"
  shows "tick a sy s = say (No_handler a) s"
proof -
  from assms have "marketDataHandlers a = Absent"
    by (rule absent_handler [THEN iffD2])
  then show ?thesis
    by (simp add: tick_def)
qed

lemma tick_without_key:
  "(a = ''STOCK'' \<or> a = ''FOREX'') \<and> no_key (ALPHA_VANTAGE_KEY s) \<Longrightarrow> tick a sy s = s"
  by (auto simp: tick_def marketDataHandlers_def lookup_def handled_def)

lemma falsy_tick:
  assumes "map_of (timers s) t = Some tm"
    and "marketDataHandlers (timer_assetType tm) = Own h"
    and "handler_start h (ALPHA_VANTAGE_KEY s) = None"
    and "handler_resume h u = Inr data"
    and "\<not> truthy data"
  shows "run [Fire t, Settle_fetch (length (inflight s)) u] s = s"
  using assms by (simp add: run_def tick_def handled_def resume_def)

lemma supplies_known:
  assumes "supplies k a data" and "a \<notin> set Object_prototype"
  shows "(a = ''STOCK'' \<or> a = ''CRYPTO'' \<or> a = ''FOREX'') \<and>
         (a = ''STOCK'' \<or> a = ''FOREX'' \<longrightarrow> \<not> no_key k)"
proof -
  note c = supplies_classes [OF assms(1)]
  have "a \<noteq> ''constructor''"
  proof
    assume "a = ''constructor''"
    with assms(2) have "''constructor'' \<notin> set Object_prototype" by simp
    then show False by (simp add: Object_prototype_def)
  qed
  moreover have "a \<noteq> ''toString''"
  proof
    assume "a = ''toString''"
    with assms(2) have "''toString'' \<notin> set Object_prototype" by simp
    then show False by (simp add: Object_prototype_def)
  qed
  ultimately show ?thesis
    using c by simp
qed

lemma supplies_truthy: "supplies k a data \<Longrightarrow> truthy data"
  by (simp add: supplies_def)

text \<open>
  The class name \<open>toString\<close> is no asset class and has no handler of its own, but the
  lookup in the handler table finds the function inherited from \<open>Object.prototype\<close>, which
  the test \<open>if (!handler)\<close> lets through: its result is cached and published.
\<close>

lemma inherited_handler_publishes:
  "let s = run [Connection ''c'', Subscribe ''c'' ''toString'' ''x'', Fire 0,
                Settle_cache 0 None (\<lambda>_. ''t0'')] (init None)
   in ''toString'' \<notin> set asset_classes \<and>
      redis s = [(''market_data:toString:x'', 60, JStr ''[object Undefined]'')] \<and>
      sent s = [(''c'', Subscribed ''toString'' ''x''),
                (''c'', Market_update ''toString'' ''x'' (JStr ''[object Undefined]'') ''t0'')]"
  by (simp add: server_defs asset_classes_def)




subsection \<open>The cache write of a successful fetch\<close>

lemma requested_write:
  assumes "map_of (timers s) t = Some tm"
    and "marketDataHandlers (timer_assetType tm) = Own h"
    and "handler_start h (ALPHA_VANTAGE_KEY s) = None"
    and "handler_resume h u = Inr data"
    and "truthy data"
  shows "run [Fire t, Settle_fetch (length (inflight s)) u] s =
           s\<lparr>inflight := inflight s @ [Await_cache (timer_assetType tm) (timer_symbol tm) data]\<rparr>"
  using assms by (simp add: run_def tick_def handled_def resume_def)

lemma accepted_write:
  assumes "i < length (inflight s)" and "inflight s ! i = Await_cache a sy data"
  shows "redis (step (Settle_cache i None clock) s) =
           AList.update (''market_data:'' @ subscriptionKey a sy) (60, data) (redis s)"
  using assms by (simp add: redis_cached)

text \<open>
  Claim C8: every successful fetch is written to the cache with a time to live of twice the
  poll interval of the class of the key (10 s for STOCK, 7200 s for REAL_ESTATE).

  As amended: the time to live is the constant 60 of the call \<open>setEx(key, 60, value)\<close>. A
  tick of a running timer whose handler returns a truthy payload asks the cache for the
  write and waits for its reply; when the cache accepts, the entry \<open>market_data:<key>\<close> holds
  the payload with 60 seconds to live. No other event changes the cache, so every entry the
  server ever wrote has 60 seconds to live. For the three classes with a handler this is
  more than the poll interval.
\<close>

theorem cache_ttl_60:
  "(\<forall>t tm h u data clock.
      map_of (timers s) t = Some tm \<and> marketDataHandlers (timer_assetType tm) = Own h \<and>
      handler_start h (ALPHA_VANTAGE_KEY s) = None \<and> handler_resume h u = Inr data \<and>
      truthy data \<longrightarrow>
      inflight (run [Fire t, Settle_fetch (length (inflight s)) u] s) =
        inflight s @ [Await_cache (timer_assetType tm) (timer_symbol tm) data] \<and>
      redis (run [Fire t, Settle_fetch (length (inflight s)) u] s) = redis s \<and>
      redis (run [Fire t, Settle_fetch (length (inflight s)) u,
                  Settle_cache (length (inflight s)) None clock] s) =
        AList.update
          (''market_data:'' @ subscriptionKey (timer_assetType tm) (timer_symbol tm))
          (60, data) (redis s)) \<and>
   (\<forall>i a sy data clock.
      i < length (inflight s) \<and> inflight s ! i = Await_cache a sy data \<longrightarrow>
      redis (step (Settle_cache i None clock) s) =
        AList.update (''market_data:'' @ subscriptionKey a sy) (60, data) (redis s) \<and>
      map_of (redis (step (Settle_cache i None clock) s))
        (''market_data:'' @ subscriptionKey a sy) = Some (60, data)) \<and>
   (redis (step e s) = redis s \<or>
    (\<exists>i clock a sy data. e = Settle_cache i None clock \<and> i < length (inflight s) \<and>
       inflight s ! i = Await_cache a sy data \<and>
       redis (step e s) =
         AList.update (''market_data:'' @ subscriptionKey a sy) (60, data) (redis s))) \<and>
   (\<forall>key ttl data. map_of (redis (run es (init k))) key = Some (ttl, data) \<longrightarrow> ttl = 60) \<and>
   (\<forall>a h. marketDataHandlers a = Own h \<longrightarrow> period (interval_of a) < 60 * 1000)"
proof (intro conjI allI impI)
  fix t tm h u data clock
  assume h: "map_of (timers s) t = Some tm \<and> marketDataHandlers (timer_assetType tm) = Own h \<and>
      handler_start h (ALPHA_VANTAGE_KEY s) = None \<and> handler_resume h u = Inr data \<and>
      truthy data"
  then have r: "run [Fire t, Settle_fetch (length (inflight s)) u] s =
           s\<lparr>inflight := inflight s @ [Await_cache (timer_assetType tm) (timer_symbol tm) data]\<rparr>"
    by (intro requested_write [where h = h]) simp_all
  show "inflight (run [Fire t, Settle_fetch (length (inflight s)) u] s) =
        inflight s @ [Await_cache (timer_assetType tm) (timer_symbol tm) data]"
    by (simp only: r) simp
  show "redis (run [Fire t, Settle_fetch (length (inflight s)) u] s) = redis s"
    by (simp only: r) simp
  from h have "run [Fire t, Settle_fetch (length (inflight s)) u,
                  Settle_cache (length (inflight s)) None clock] s =
           publish (timer_assetType tm) (timer_symbol tm) data clock
             (s\<lparr>redis := AList.update
                  (''market_data:'' @ subscriptionKey (timer_assetType tm) (timer_symbol tm))
                  (60, data) (redis s)\<rparr>)"
    by (intro successful_tick [where h = h]) simp_all
  then show "redis (run [Fire t, Settle_fetch (length (inflight s)) u,
                  Settle_cache (length (inflight s)) None clock] s) =
        AList.update
          (''market_data:'' @ subscriptionKey (timer_assetType tm) (timer_symbol tm))
          (60, data) (redis s)"
    by simp
next
  fix i a sy data clock
  assume "i < length (inflight s) \<and> inflight s ! i = Await_cache a sy data"
  then have w: "redis (step (Settle_cache i None clock) s) =
        AList.update (''market_data:'' @ subscriptionKey a sy) (60, data) (redis s)"
    by (intro accepted_write) simp_all
  then show "redis (step (Settle_cache i None clock) s) =
        AList.update (''market_data:'' @ subscriptionKey a sy) (60, data) (redis s)" .
  show "map_of (redis (step (Settle_cache i None clock) s))
        (''market_data:'' @ subscriptionKey a sy) = Some (60, data)"
    by (simp only: w update_conv') simp
next
  show "redis (step e s) = redis s \<or>
    (\<exists>i clock a sy data. e = Settle_cache i None clock \<and> i < length (inflight s) \<and>
       inflight s ! i = Await_cache a sy data \<and>
       redis (step e s) =
         AList.update (''market_data:'' @ subscriptionKey a sy) (60, data) (redis s))"
    by (rule redis_step)
next
  fix key ttl data assume e: "map_of (redis (run es (init k))) key = Some (ttl, data)"
  have "\<forall>key ttl data. map_of (redis (init k)) key = Some (ttl, data) \<longrightarrow> ttl = 60"
    by (simp add: init_def)
  then have "\<forall>key ttl data. map_of (redis (run es (init k))) key = Some (ttl, data) \<longrightarrow> ttl = 60"
    unfolding run_def by (rule ttl_fold)
  with e show "ttl = 60" by blast
next
  fix a h assume "marketDataHandlers a = Own h"
  then show "period (interval_of a) < 60 * 1000"
    by (auto simp: own_handler interval_of_def pollingIntervals_def lookup_def)
qed

theorem cache_ttl_60_witness:
  "let d = JObj [(''price'', JNum 190)];
       ready = run [Connection ''c'', Subscribe ''c'' ''STOCK'' ''AAPL''] (init (Some ''key''));
       tm = \<lparr>timer_assetType = ''STOCK'', timer_symbol = ''AAPL'', timer_interval = Millis 5000\<rparr>;
       waiting = run [Fire 0, Settle_fetch 0 (Json d)] ready;
       done = run [Fire 0, Settle_fetch 0 (Json d), Settle_cache 0 None (\<lambda>_. ''t0'')] ready
   in map_of (timers ready) 0 = Some tm \<and> marketDataHandlers ''STOCK'' = Own STOCK \<and>
      handler_start STOCK (ALPHA_VANTAGE_KEY ready) = None \<and>
      handler_resume STOCK (Json d) = Inr d \<and> truthy d \<and>
      inflight waiting = [Await_cache ''STOCK'' ''AAPL'' d] \<and> redis waiting = [] \<and>
      redis done = [(''market_data:STOCK:AAPL'', 60, d)] \<and>
      map_of (redis done) ''market_data:STOCK:AAPL'' = Some (60, d) \<and>
      period (interval_of ''STOCK'') < 60 * 1000"
proof -
  let ?d = "JObj [(''price'', JNum 190)]"
  let ?pre = "[Connection ''c'', Subscribe ''c'' ''STOCK'' ''AAPL'']"
  let ?ready = "run ?pre (init (Some ''key''))"
  let ?tm = "\<lparr>timer_assetType = ''STOCK'', timer_symbol = ''AAPL'', timer_interval = Millis 5000\<rparr>"
  let ?waiting = "run [Fire 0, Settle_fetch 0 (Json ?d)] ?ready"
  let ?done = "run [Fire 0, Settle_fetch 0 (Json ?d), Settle_cache 0 None (\<lambda>_. ''t0'')] ?ready"
  let ?all = "?pre @ [Fire 0, Settle_fetch 0 (Json ?d), Settle_cache 0 None (\<lambda>_. ''t0'')]"
  have h1: "map_of (timers ?ready) 0 = Some ?tm"
    by (simp add: server_defs)
  have h2: "marketDataHandlers (timer_assetType ?tm) = Own STOCK"
    by (simp add: own_handler)
  have h3: "handler_start STOCK (ALPHA_VANTAGE_KEY ?ready) = None"
    by (simp add: no_key_def)
  have h4: "handler_resume STOCK (Json ?d) = Inr ?d" "truthy ?d"
    by (simp_all add: checked_def)
  have i0: "inflight ?ready = []" and r: "redis ?ready = []"
    by (simp_all add: server_defs)
  have n: "length (inflight ?ready) = 0"
    by (simp only: i0 list.size)
  have k: "subscriptionKey ''STOCK'' ''AAPL'' = ''STOCK:AAPL''"
    by (simp add: subscriptionKey_def)
  note t = cache_ttl_60 [where s = ?ready and es = ?all and k = "Some ''key''"
      and e = "Connection ''c''"]
  from t have "\<forall>t tm h u data clock.
      map_of (timers ?ready) t = Some tm \<and> marketDataHandlers (timer_assetType tm) = Own h \<and>
      handler_start h (ALPHA_VANTAGE_KEY ?ready) = None \<and> handler_resume h u = Inr data \<and>
      truthy data \<longrightarrow>
      inflight (run [Fire t, Settle_fetch (length (inflight ?ready)) u] ?ready) =
        inflight ?ready @ [Await_cache (timer_assetType tm) (timer_symbol tm) data] \<and>
      redis (run [Fire t, Settle_fetch (length (inflight ?ready)) u] ?ready) = redis ?ready \<and>
      redis (run [Fire t, Settle_fetch (length (inflight ?ready)) u,
                  Settle_cache (length (inflight ?ready)) None clock] ?ready) =
        AList.update
          (''market_data:'' @ subscriptionKey (timer_assetType tm) (timer_symbol tm))
          (60, data) (redis ?ready)"
    by (rule conjunct1)
  then have "map_of (timers ?ready) 0 = Some ?tm \<and> marketDataHandlers (timer_assetType ?tm) = Own STOCK \<and>
      handler_start STOCK (ALPHA_VANTAGE_KEY ?ready) = None \<and> handler_resume STOCK (Json ?d) = Inr ?d \<and>
      truthy ?d \<longrightarrow>
      inflight (run [Fire 0, Settle_fetch (length (inflight ?ready)) (Json ?d)] ?ready) =
        inflight ?ready @ [Await_cache (timer_assetType ?tm) (timer_symbol ?tm) ?d] \<and>
      redis (run [Fire 0, Settle_fetch (length (inflight ?ready)) (Json ?d)] ?ready) = redis ?ready \<and>
      redis (run [Fire 0, Settle_fetch (length (inflight ?ready)) (Json ?d),
                  Settle_cache (length (inflight ?ready)) None (\<lambda>_. ''t0'')] ?ready) =
        AList.update
          (''market_data:'' @ subscriptionKey (timer_assetType ?tm) (timer_symbol ?tm))
          (60, ?d) (redis ?ready)"
    by (elim allE)
  with h1 h2 h3 h4 have "inflight (run [Fire 0, Settle_fetch (length (inflight ?ready)) (Json ?d)] ?ready) =
        inflight ?ready @ [Await_cache (timer_assetType ?tm) (timer_symbol ?tm) ?d] \<and>
      redis (run [Fire 0, Settle_fetch (length (inflight ?ready)) (Json ?d)] ?ready) = redis ?ready \<and>
      redis (run [Fire 0, Settle_fetch (length (inflight ?ready)) (Json ?d),
                  Settle_cache (length (inflight ?ready)) None (\<lambda>_. ''t0'')] ?ready) =
        AList.update
          (''market_data:'' @ subscriptionKey (timer_assetType ?tm) (timer_symbol ?tm))
          (60, ?d) (redis ?ready)"
    by (elim impE) (intro conjI)
  then have w: "inflight ?waiting = [Await_cache ''STOCK'' ''AAPL'' ?d]" "redis ?waiting = []"
    and d: "redis ?done = [(''market_data:STOCK:AAPL'', 60, ?d)]"
    by (simp_all add: n i0 r k del: step.simps)
  then have m: "map_of (redis ?done) ''market_data:STOCK:AAPL'' = Some (60, ?d)"
    by simp
  from t have "\<forall>a h. marketDataHandlers a = Own h \<longrightarrow> period (interval_of a) < 60 * 1000"
    by (elim conjE)
  then have "marketDataHandlers ''STOCK'' = Own STOCK \<longrightarrow> period (interval_of ''STOCK'') < 60 * 1000"
    by (elim allE)
  moreover have h2': "marketDataHandlers ''STOCK'' = Own STOCK"
    using h2 by simp
  ultimately have p: "period (interval_of ''STOCK'') < 60 * 1000"
    by (elim impE)
  from h1 h2' h3 h4 w d m p show ?thesis
    by (simp only: Let_def simp_thms)
qed

subsection \<open>Who receives a fetched payload\<close>

text \<open>
  Two runs with a successful CRYPTO fetch. In the first the cache rejects the write: the
  two subscribers of the key receive nothing. In the second, connection B has subscribed
  to the pair (\<open>CRYPTO:a\<close>, \<open>b\<close>), whose key string is that of the pair (\<open>CRYPTO\<close>, \<open>a:b\<close>)
  that connection A subscribed to: B receives the update fetched for A's pair.
\<close>

theorem successful_fetch_misdelivered:
  "let d = JObj [(''usd'', JNum 190)];
       clock = (\<lambda>n. if n = 0 then ''t0'' else ''t1'');
       ready = run [Connection ''A'', Connection ''B'', Subscribe ''A'' ''CRYPTO'' ''bitcoin'',
                    Subscribe ''B'' ''CRYPTO'' ''bitcoin''] (init None);
       down = run [Fire 0, Settle_fetch 0 (Json d),
                   Settle_cache 0 (Some ''ECONNREFUSED'') clock] ready;
       shared = run [Connection ''A'', Connection ''B'', Subscribe ''A'' ''CRYPTO'' ''a:b'',
                     Subscribe ''B'' ''CRYPTO:a'' ''b''] (init None);
       sent_to_both = run [Fire 0, Settle_fetch 0 (Json d), Settle_cache 0 None clock] shared
   in handler_resume CRYPTO (Json d) = Inr d \<and> truthy d \<and>
      subscribers_of down ''CRYPTO:bitcoin'' = [''A'', ''B''] \<and>
      sent down = sent ready \<and> inflight down = [] \<and>
      console down = console ready @ [Error_fetching ''CRYPTO:bitcoin'' (Rejected ''ECONNREFUSED'')] \<and>
      sent sent_to_both = sent shared @
        [(''A'', Market_update ''CRYPTO'' ''a:b'' d ''t0''),
         (''B'', Market_update ''CRYPTO'' ''a:b'' d ''t1'')]"
  by (simp add: server_defs subscribers_of_def)

text \<open>
  Claim C3: for every successful fetch of a key, each connection subscribed to the key at
  publish time receives exactly one \<open>market_update\<close> for that fetch, and every connection
  not subscribed then, also one removed earlier by the disconnect cleanup, receives none.

  As amended: the payload of a fetch reaches the emit loop only when it is truthy and the
  cache has accepted its write. The callback resumed by that reply sends to each member of
  the Set registered at that moment under the key string \<open>assetType:symbol\<close> exactly one
  message, the \<open>market_update\<close> with the fetched data and the time read in the member's
  round of the loop, and nothing to any other socket; the members are connected sockets,
  and a socket that has disconnected is in no Set. The Set is shared by all pairs of asset
  type and symbol with the same key string. When the cache rejects the write, nothing is
  sent to anybody.
\<close>

theorem fan_out:
  assumes "s = run es (init k)"
    and "i < length (inflight s)"
    and "inflight s ! i = Await_cache a sy data"
  shows "truthy data \<and>
         (\<exists>new. sent (step (Settle_cache i None clock) s) = sent s @ new \<and>
            (\<forall>c. c \<in> set (subscribers_of s (subscriptionKey a sy)) \<longrightarrow>
               (\<exists>n<length (subscribers_of s (subscriptionKey a sy)).
                  subscribers_of s (subscriptionKey a sy) ! n = c \<and>
                  received c new = [Market_update a sy data (clock n)])) \<and>
            (\<forall>c. c \<notin> set (subscribers_of s (subscriptionKey a sy)) \<longrightarrow> received c new = [])) \<and>
         set (subscribers_of s (subscriptionKey a sy)) \<subseteq> set (clients s) \<and>
         (\<forall>c key. c \<notin> set (subscribers_of (step (Disconnect c) s) key)) \<and>
         (\<forall>a' sy' c. subscriptionKey a' sy' = subscriptionKey a sy \<and> c \<in> set (clients s) \<longrightarrow>
            c \<in> set (subscribers_of (step (Subscribe c a' sy') s) (subscriptionKey a sy))) \<and>
         (\<forall>m. sent (step (Settle_cache i (Some m) clock) s) = sent s)"
proof -
  let ?subs = "subscribers_of s (subscriptionKey a sy)"
  let ?new = "market_updates a sy data clock ?subs"
  have ok: "registry_ok s"
    using assms(1) by (simp add: registry_ok_run)
  have d: "distinct ?subs" and cl: "set ?subs \<subseteq> set (clients s)"
    using ok by (rule subscribers_ok)+
  have "feed_ok s"
    using assms(1) by (simp add: feed_ok_run)
  moreover from assms(2,3) have "Await_cache a sy data \<in> set (inflight s)"
    by (metis nth_mem)
  ultimately have "supplies (ALPHA_VANTAGE_KEY s) a data"
    by (rule feed_ok_cache)
  then have t: "truthy data"
    by (rule supplies_truthy)
  have new: "sent (step (Settle_cache i None clock) s) = sent s @ ?new"
    by (simp only: step_Settle_cache [OF assms(2,3)] sent_cached option.case
          subscribers_of_resume resume_simps)
  have one: "\<exists>n<length ?subs. ?subs ! n = c \<and> received c ?new = [Market_update a sy data (clock n)]"
    if "c \<in> set ?subs" for c
    using that by (rule received_market_updates(1) [OF d])
  have none: "received c ?new = []" if "c \<notin> set ?subs" for c
    using that by (rule received_market_updates(2) [OF d])
  have gone: "c \<notin> set (subscribers_of (step (Disconnect c) s) key)" for c key
    using ok by (rule gone_after_disconnect)
  have shared: "c \<in> set (subscribers_of (step (Subscribe c a' sy') s) (subscriptionKey a sy))"
    if "subscriptionKey a' sy' = subscriptionKey a sy \<and> c \<in> set (clients s)" for a' sy' c
  proof -
    from that have "step (Subscribe c a' sy') s = subscribe c a' sy' s"
      by simp
    moreover have "c \<in> set (subscribers_of (subscribe c a' sy' s) (subscriptionKey a' sy'))"
      by (rule subscribed_after_subscribe)
    ultimately show ?thesis
      using that by (simp del: step.simps)
  qed
  have rejected: "sent (step (Settle_cache i (Some m) clock) s) = sent s" for m
    by (simp only: step_Settle_cache [OF assms(2,3)] sent_cached option.case resume_simps)
  from new one none have "\<exists>new. sent (step (Settle_cache i None clock) s) = sent s @ new \<and>
            (\<forall>c. c \<in> set ?subs \<longrightarrow>
               (\<exists>n<length ?subs. ?subs ! n = c \<and>
                  received c new = [Market_update a sy data (clock n)])) \<and>
            (\<forall>c. c \<notin> set ?subs \<longrightarrow> received c new = [])"
    by (intro exI [of _ ?new] conjI allI impI)
  with t cl gone shared rejected show ?thesis
    by (intro conjI allI impI)
qed

theorem fan_out_witness:
  "let d = JObj [(''usd'', JNum 190)];
       clock = (\<lambda>n. if n = 0 then ''t0'' else ''t1'');
       s = run [Connection ''A'', Connection ''B'', Connection ''C'',
                Subscribe ''A'' ''CRYPTO'' ''a:b'', Subscribe ''B'' ''CRYPTO'' ''a:b'',
                Fire 0, Settle_fetch 0 (Json d)] (init None);
       new = drop (length (sent s)) (sent (step (Settle_cache 0 None clock) s))
   in 0 < length (inflight s) \<and> inflight s ! 0 = Await_cache ''CRYPTO'' ''a:b'' d \<and>
      subscribers_of s ''CRYPTO:a:b'' = [''A'', ''B''] \<and> truthy d \<and>
      received ''A'' new = [Market_update ''CRYPTO'' ''a:b'' d ''t0''] \<and>
      received ''B'' new = [Market_update ''CRYPTO'' ''a:b'' d ''t1''] \<and>
      received ''C'' new = [] \<and>
      ''C'' \<in> set (clients s) \<and>
      ''C'' \<in> set (subscribers_of (step (Subscribe ''C'' ''CRYPTO:a'' ''b'') s) ''CRYPTO:a:b'') \<and>
      ''A'' \<notin> set (subscribers_of (step (Disconnect ''A'') s) ''CRYPTO:a:b'') \<and>
      sent (step (Settle_cache 0 (Some ''down'') clock) s) = sent s"
proof -
  let ?d = "JObj [(''usd'', JNum 190)]"
  let ?clock = "\<lambda>n::nat. if n = 0 then ''t0'' else ''t1''"
  let ?es = "[Connection ''A'', Connection ''B'', Connection ''C'',
                Subscribe ''A'' ''CRYPTO'' ''a:b'', Subscribe ''B'' ''CRYPTO'' ''a:b'',
                Fire 0, Settle_fetch 0 (Json ?d)]"
  let ?s = "run ?es (init None)"
  let ?subs = "subscribers_of ?s (subscriptionKey ''CRYPTO'' ''a:b'')"
  let ?new = "drop (length (sent ?s)) (sent (step (Settle_cache 0 None ?clock) ?s))"
  have h1: "0 < length (inflight ?s)"
    by (simp add: server_defs)
  have h2: "inflight ?s ! 0 = Await_cache ''CRYPTO'' ''a:b'' ?d"
    by (simp add: server_defs)
  have k: "subscriptionKey ''CRYPTO'' ''a:b'' = ''CRYPTO:a:b''"
    "subscriptionKey ''CRYPTO:a'' ''b'' = ''CRYPTO:a:b''"
    by (simp_all add: subscriptionKey_def)
  have h3: "?subs = [''A'', ''B'']"
    by (simp add: server_defs subscribers_of_def)
  have h4: "''C'' \<in> set (clients ?s)"
    by (simp add: server_defs)
  note t = fan_out [OF refl h1 h2, where clock = ?clock]
  from t have tr: "truthy ?d"
    by (rule conjunct1)
  from t obtain new where
    new: "sent (step (Settle_cache 0 None ?clock) ?s) = sent ?s @ new"
    and one: "\<And>c. c \<in> set ?subs \<Longrightarrow>
               \<exists>n<length ?subs. ?subs ! n = c \<and>
                  received c new = [Market_update ''CRYPTO'' ''a:b'' ?d (?clock n)]"
    and none: "\<And>c. c \<notin> set ?subs \<Longrightarrow> received c new = []"
    by (elim conjE exE) blast
  from new have eq: "?new = new"
    by (simp only: append_eq_conv_conj) simp
  from one [of "''A''"] obtain n where "n < length ?subs" "?subs ! n = ''A''"
    "received ''A'' new = [Market_update ''CRYPTO'' ''a:b'' ?d (?clock n)]"
    by (auto simp: h3)
  then have a: "received ''A'' new = [Market_update ''CRYPTO'' ''a:b'' ?d ''t0'']"
    by (cases n) (auto simp: h3)
  from one [of "''B''"] obtain n where "n < length ?subs" "?subs ! n = ''B''"
    "received ''B'' new = [Market_update ''CRYPTO'' ''a:b'' ?d (?clock n)]"
    by (auto simp: h3)
  then have b: "received ''B'' new = [Market_update ''CRYPTO'' ''a:b'' ?d ''t1'']"
    by (cases n) (auto simp: h3)
  from none [of "''C''"] have c: "received ''C'' new = []"
    by (simp add: h3)
  from t have "\<forall>a' sy' c. subscriptionKey a' sy' = subscriptionKey ''CRYPTO'' ''a:b'' \<and>
        c \<in> set (clients ?s) \<longrightarrow>
        c \<in> set (subscribers_of (step (Subscribe c a' sy') ?s) (subscriptionKey ''CRYPTO'' ''a:b''))"
    by (elim conjE)
  then have "subscriptionKey ''CRYPTO:a'' ''b'' = subscriptionKey ''CRYPTO'' ''a:b'' \<and>
        ''C'' \<in> set (clients ?s) \<longrightarrow>
        ''C'' \<in> set (subscribers_of (step (Subscribe ''C'' ''CRYPTO:a'' ''b'') ?s)
                  (subscriptionKey ''CRYPTO'' ''a:b''))"
    by (elim allE)
  with h4 have sh: "''C'' \<in> set (subscribers_of (step (Subscribe ''C'' ''CRYPTO:a'' ''b'') ?s)
                  ''CRYPTO:a:b'')"
    by (simp only: k simp_thms)
  from t have "\<forall>c key. c \<notin> set (subscribers_of (step (Disconnect c) ?s) key)"
    by (elim conjE)
  then have g: "''A'' \<notin> set (subscribers_of (step (Disconnect ''A'') ?s) ''CRYPTO:a:b'')"
    by (elim allE)
  from t have "\<forall>m. sent (step (Settle_cache 0 (Some m) ?clock) ?s) = sent ?s"
    by (elim conjE)
  then have r: "sent (step (Settle_cache 0 (Some ''down'') ?clock) ?s) = sent ?s"
    by (elim allE)
  from h3 have h3': "subscribers_of ?s ''CRYPTO:a:b'' = [''A'', ''B'']"
    by (simp only: k)
  from h1 h2 h3' tr a b c h4 sh g r show ?thesis
    by (simp only: Let_def eq simp_thms)
qed

end
